theory Spec2Isabelle
  imports Main
begin

section \<open>Annotated text rendering of ve.ce.TextNode\<close>

text \<open>
  The development embeds \<^verbatim>\<open>ve.ce.TextNode.renderAnnotation\<close> and
  \<^verbatim>\<open>ve.ce.TextNode.prototype.getHtml\<close> together with the two static tables
  \<^verbatim>\<open>annotationRenderers\<close> and \<^verbatim>\<open>htmlCharacters\<close>.

  Annotations are JavaScript objects that the code compares with \<^verbatim>\<open>===\<close>, which on
  objects is reference identity. An annotation is therefore a reference into a store
  that maps each reference to the object's fields; comparing two annotations compares
  the references and never the fields.

  A property test \<^verbatim>\<open>k in table\<close> on an object literal looks at the keys written in
  the literal and at the property names the object inherits from
  \<^verbatim>\<open>Object.prototype\<close>. For \<^verbatim>\<open>annotationRenderers\<close> both are modelled, since an
  annotation type is an arbitrary string. For \<^verbatim>\<open>htmlCharacters\<close> the keys of the
  literal suffice: a content unit holds one character and no inherited property name
  is a single character.
\<close>

subsection \<open>Data model\<close>

type_synonym ref = nat

text \<open>The payload \<^verbatim>\<open>annotation.data\<close>: an object with string-valued properties.\<close>

type_synonym payload = "string \<rightharpoonup> string"

record annotation =
  ann_type :: string
  ann_data :: payload

type_synonym heap = "ref \<Rightarrow> annotation"

text \<open>
  An element of the node's data is either a string holding one character or an array
  whose element 0 is the character and whose elements from index 1 on are annotations.
\<close>

datatype content_unit = Plain string | Formatted string "ref list"

fun isPlain :: "content_unit \<Rightarrow> bool" where
  "isPlain (Plain c) = True"
| "isPlain (Formatted c as) = False"

fun chr_of :: "content_unit \<Rightarrow> string" where
  "chr_of (Plain c) = c"
| "chr_of (Formatted c as) = c"

text \<open>The annotations of a unit: elements 1 .. length - 1 of the array, none for a string.\<close>

fun anns :: "content_unit \<Rightarrow> ref list" where
  "anns (Plain c) = []"
| "anns (Formatted c as) = as"

datatype bias = Open | Close

datatype error = InvalidStack | TypeError

subsection \<open>The tables\<close>

text \<open>
  What reading an \<^verbatim>\<open>open\<close> or \<^verbatim>\<open>close\<close> property gives: a string, a function of
  the payload, or \<^verbatim>\<open>undefined\<close> when the value read from has no such property.
\<close>

datatype markup = Literal string | Computed "payload \<Rightarrow> string" | Undefined

record renderer =
  open_rule :: markup
  close_rule :: markup

text \<open>Reading a property of the payload inside a string concatenation.\<close>

definition getprop :: "payload \<Rightarrow> string \<Rightarrow> string" where
  "getprop d k = (case d k of Some v \<Rightarrow> v | None \<Rightarrow> ''undefined'')"

definition annotationRenderers :: "string \<rightharpoonup> renderer" where
  \<open>annotationRenderers = map_of
    [(''object/template'',
        \<lparr>open_rule = Computed (\<lambda>d. ''<span class="ve-ce-content-format-object">'' @ getprop d ''html''),
         close_rule = Literal ''</span>''\<rparr>),
     (''object/hook'',
        \<lparr>open_rule = Computed (\<lambda>d. ''<span class="ve-ce-content-format-object">'' @ getprop d ''html''),
         close_rule = Literal ''</span>''\<rparr>),
     (''textStyle/bold'',
        \<lparr>open_rule = Literal ''<b>'', close_rule = Literal ''</b>''\<rparr>),
     (''textStyle/italic'',
        \<lparr>open_rule = Literal ''<i>'', close_rule = Literal ''</i>''\<rparr>),
     (''textStyle/strong'',
        \<lparr>open_rule = Literal ''<span class="ve-ce-content-format-textStyle-strong">'',
         close_rule = Literal ''</span>''\<rparr>),
     (''textStyle/emphasize'',
        \<lparr>open_rule = Literal ''<span class="ve-ce-content-format-textStyle-emphasize">'',
         close_rule = Literal ''</span>''\<rparr>),
     (''textStyle/big'',
        \<lparr>open_rule = Literal ''<span class="ve-ce-content-format-textStyle-big">'',
         close_rule = Literal ''</span>''\<rparr>),
     (''textStyle/small'',
        \<lparr>open_rule = Literal ''<span class="ve-ce-content-format-textStyle-small">'',
         close_rule = Literal ''</span>''\<rparr>),
     (''textStyle/superScript'',
        \<lparr>open_rule = Literal ''<span class="ve-ce-content-format-textStyle-superScript">'',
         close_rule = Literal ''</span>''\<rparr>),
     (''textStyle/subScript'',
        \<lparr>open_rule = Literal ''<span class="ve-ce-content-format-textStyle-subScript">'',
         close_rule = Literal ''</span>''\<rparr>),
     (''link/external'',
        \<lparr>open_rule = Computed (\<lambda>d. ''<span class="ve-ce-content-format-link" data-href="''
                                    @ getprop d ''href'' @ ''">''),
         close_rule = Literal ''</span>''\<rparr>),
     (''link/internal'',
        \<lparr>open_rule = Computed (\<lambda>d. ''<span class="ve-ce-content-format-link" data-title="wiki/''
                                    @ getprop d ''title'' @ ''">''),
         close_rule = Literal ''</span>''\<rparr>)]\<close>

text \<open>
  The property names every object literal inherits from \<^verbatim>\<open>Object.prototype\<close>. The
  values behind them are functions, or the prototype itself for \<^verbatim>\<open>__proto__\<close>; none
  of them has an \<^verbatim>\<open>open\<close> or a \<^verbatim>\<open>close\<close> property.
\<close>

definition object_prototype_names :: "string list" where
  "object_prototype_names =
     [''constructor'', ''toString'', ''toLocaleString'', ''valueOf'', ''hasOwnProperty'',
      ''isPrototypeOf'', ''propertyIsEnumerable'', ''__defineGetter__'', ''__defineSetter__'',
      ''__lookupGetter__'', ''__lookupSetter__'', ''__proto__'']"

definition inherited_value :: renderer where
  "inherited_value = \<lparr>open_rule = Undefined, close_rule = Undefined\<rparr>"

text \<open>
  \<^verbatim>\<open>renderers[type]\<close>, as far as its \<^verbatim>\<open>open\<close> and \<^verbatim>\<open>close\<close> properties go: the entry
  of the table for a key of the literal, an inherited value for an inherited name, and
  \<^verbatim>\<open>undefined\<close> (here \<open>None\<close>) otherwise. The test \<^verbatim>\<open>type in renderers\<close> holds
  exactly when this is not \<open>None\<close>.
\<close>

definition renderers_get :: "string \<rightharpoonup> renderer" where
  "renderers_get type_name =
     (case annotationRenderers type_name of
        Some r \<Rightarrow> Some r
      | None \<Rightarrow> if type_name \<in> set object_prototype_names then Some inherited_value else None)"

definition htmlCharacters :: "string \<rightharpoonup> string" where
  \<open>htmlCharacters = map_of
    [(''&'', ''&amp;''),
     (''<'', ''&lt;''),
     (''>'', ''&gt;''),
     ([CHR 0x27], ''&#039;''),
     ([CHR 0x22], ''&quot;''),
     ([CHR 0x0A], ''<span class="ve-ce-content-whitespace">&#182;</span>''),
     ([CHR 0x09], ''<span class="ve-ce-content-whitespace">&#8702;</span>'')]\<close>

subsection \<open>Output pieces\<close>

text \<open>
  The code builds its result with \<^verbatim>\<open>out += ...\<close>. The model keeps \<^verbatim>\<open>out\<close> as the
  list of the strings appended, in order, each tagged with the place that appended it;
  the string the code returns is the concatenation of the pieces.
\<close>

datatype tag =
    TagOpen ref
  | TagClose ref
  | TagCloseAbove ref
  | TagReopen ref
  | Chr

type_synonym piece = "tag \<times> string"

definition text_of :: "piece list \<Rightarrow> string" where
  "text_of out = concat (map snd out)"

subsection \<open>renderAnnotation\<close>

text \<open>
  Modelled from the spec: \<^verbatim>\<open>ve.inArray\<close> is defined outside the two files embedded
  here. The
  specification has the stack and the neighbouring unit searched by identity for the
  position of an annotation, and the code compares the result with -1: the function
  gives the first index that holds the very same value, \<open>None\<close> standing for -1.
\<close>

fun inArray :: "'a \<Rightarrow> 'a list \<Rightarrow> nat option" where
  "inArray x [] = None"
| "inArray x (y # ys) = (if y = x then Some 0 else map_option Suc (inArray x ys))"

text \<open>
  \<^verbatim>\<open>typeof m === 'function' ? m( data ) : m\<close>, the result being appended to a
  string: \<^verbatim>\<open>undefined\<close> is not a function and is appended as the text \<^verbatim>\<open>undefined\<close>.
\<close>

fun resolve :: "markup \<Rightarrow> payload \<Rightarrow> string" where
  "resolve (Computed f) d = f d"
| "resolve (Literal s) d = s"
| "resolve Undefined d = ''undefined''"

text \<open>
  The two inner loops of the buried case read \<^verbatim>\<open>renderers[stack[i].type]\<close> without a
  guard: when that is \<^verbatim>\<open>undefined\<close>, the read of \<^verbatim>\<open>.close\<close> or \<^verbatim>\<open>.open\<close> on it
  throws a TypeError.
\<close>

fun close_each :: "heap \<Rightarrow> ref list \<Rightarrow> error + piece list" where
  "close_each h [] = Inr []"
| "close_each h (a # as) =
     (case renderers_get (ann_type (h a)) of
        None \<Rightarrow> Inl TypeError
      | Some r \<Rightarrow>
          (case close_each h as of
             Inl e \<Rightarrow> Inl e
           | Inr ps \<Rightarrow> Inr ((TagCloseAbove a, resolve (close_rule r) (ann_data (h a))) # ps)))"

fun open_each :: "heap \<Rightarrow> ref list \<Rightarrow> error + piece list" where
  "open_each h [] = Inr []"
| "open_each h (a # as) =
     (case renderers_get (ann_type (h a)) of
        None \<Rightarrow> Inl TypeError
      | Some r \<Rightarrow>
          (case open_each h as of
             Inl e \<Rightarrow> Inl e
           | Inr ps \<Rightarrow> Inr ((TagReopen a, resolve (open_rule r) (ann_data (h a))) # ps)))"

text \<open>
  The stack is a list with the top at the end. The result is the string the call
  returns (as pieces) and the stack as the call leaves it. In the buried case the
  closing loop visits \<^verbatim>\<open>stack[length - 1]\<close> down to \<^verbatim>\<open>stack[depth + 1]\<close> and the
  reopening loop \<^verbatim>\<open>stack[depth + 1]\<close> up to \<^verbatim>\<open>stack[length - 1]\<close>;
  \<^verbatim>\<open>splice( depth, 1 )\<close> then removes the element at \<^verbatim>\<open>depth\<close>.
\<close>

definition renderAnnotation ::
  "heap \<Rightarrow> bias \<Rightarrow> ref \<Rightarrow> ref list \<Rightarrow> error + (piece list \<times> ref list)" where
  "renderAnnotation h bias annotation stack =
     (case renderers_get (ann_type (h annotation)) of
        None \<Rightarrow> Inr ([], stack)
      | Some r \<Rightarrow>
          (case bias of
             Open \<Rightarrow>
               Inr ([(TagOpen annotation, resolve (open_rule r) (ann_data (h annotation)))],
                    stack @ [annotation])
           | Close \<Rightarrow>
               if stack \<noteq> [] \<and> last stack = annotation
               then Inr ([(TagClose annotation, resolve (close_rule r) (ann_data (h annotation)))],
                         butlast stack)
               else
                 (case inArray annotation stack of
                    None \<Rightarrow> Inl InvalidStack
                  | Some depth \<Rightarrow>
                      (case close_each h (rev (drop (depth + 1) stack)) of
                         Inl e \<Rightarrow> Inl e
                       | Inr cs \<Rightarrow>
                           (case open_each h (drop (depth + 1) stack) of
                              Inl e \<Rightarrow> Inl e
                            | Inr os \<Rightarrow>
                                Inr (cs
                                     @ [(TagClose annotation,
                                         resolve (close_rule r) (ann_data (h annotation)))]
                                     @ os,
                                     take depth stack @ drop (depth + 1) stack))))))"

subsection \<open>getHtml\<close>

text \<open>\<^verbatim>\<open>chr in htmlChars ? htmlChars[chr] : chr\<close>\<close>

definition htmlChar :: "string \<Rightarrow> string" where
  "htmlChar chr = (case htmlCharacters chr of Some s \<Rightarrow> s | None \<Rightarrow> chr)"

text \<open>
  \<^verbatim>\<open>for ( j = 1; j < xs.length; j++ ) out += render( bias, xs[j], stack )\<close>,
  given the annotations \<^verbatim>\<open>xs[1]\<close>, \<^verbatim>\<open>xs[2]\<close>, ... of the array.
\<close>

fun render_all ::
  "heap \<Rightarrow> bias \<Rightarrow> ref list \<Rightarrow> piece list \<Rightarrow> ref list \<Rightarrow> error + (piece list \<times> ref list)" where
  "render_all h bias [] out stack = Inr (out, stack)"
| "render_all h bias (a # as) out stack =
     (case renderAnnotation h bias a stack of
        Inl e \<Rightarrow> Inl e
      | Inr (s, stack') \<Rightarrow> render_all h bias as (out @ s) stack')"

text \<open>
  The same loop with the test \<^verbatim>\<open>ve.inArray( xs[j], other ) === -1\<close>. The code searches
  the whole array \<^verbatim>\<open>other\<close>, whose element 0 is a string; an annotation object is never
  identical to a string, so the search is over the annotations of \<^verbatim>\<open>other\<close>.
\<close>

fun render_missing ::
  "heap \<Rightarrow> bias \<Rightarrow> ref list \<Rightarrow> ref list \<Rightarrow> piece list \<Rightarrow> ref list
     \<Rightarrow> error + (piece list \<times> ref list)" where
  "render_missing h bias [] other out stack = Inr (out, stack)"
| "render_missing h bias (a # as) other out stack =
     (if inArray a other = None
      then (case renderAnnotation h bias a stack of
              Inl e \<Rightarrow> Inl e
            | Inr (s, stack') \<Rightarrow> render_missing h bias as other (out @ s) stack')
      else render_missing h bias as other out stack)"

text \<open>The three-way branch at the head of the loop body.\<close>

definition transition ::
  "heap \<Rightarrow> content_unit \<Rightarrow> content_unit \<Rightarrow> piece list \<Rightarrow> ref list
     \<Rightarrow> error + (piece list \<times> ref list)" where
  "transition h left right out stack =
     (let leftPlain = isPlain left; rightPlain = isPlain right in
      if \<not> leftPlain \<and> rightPlain then render_all h Close (anns left) out stack
      else if leftPlain \<and> \<not> rightPlain then render_all h Open (anns right) out stack
      else if \<not> leftPlain \<and> \<not> rightPlain then
        (case render_missing h Close (anns left) (anns right) out stack of
           Inl e \<Rightarrow> Inl e
         | Inr (out', stack') \<Rightarrow> render_missing h Open (anns right) (anns left) out' stack')
      else Inr (out, stack))"

text \<open>The loop over \<^verbatim>\<open>data\<close>, from the state \<^verbatim>\<open>left\<close>, \<^verbatim>\<open>out\<close>, \<^verbatim>\<open>stack\<close>.\<close>

fun loop ::
  "heap \<Rightarrow> content_unit \<Rightarrow> piece list \<Rightarrow> ref list \<Rightarrow> content_unit list
     \<Rightarrow> error + (piece list \<times> ref list)" where
  "loop h left out stack [] = Inr (out, stack)"
| "loop h left out stack (right # rest) =
     (case transition h left right out stack of
        Inl e \<Rightarrow> Inl e
      | Inr (out', stack') \<Rightarrow>
          loop h right (out' @ [(Chr, htmlChar (chr_of right))]) stack' rest)"

text \<open>
  The body of \<^verbatim>\<open>getHtml\<close> after the range has been dealt with, on the data that
  \<^verbatim>\<open>this.doc.getDataFromNode( this )\<close> hands over, returning \<^verbatim>\<open>out\<close>
  together with the stack at the moment of \<^verbatim>\<open>return\<close>. After the loop \<^verbatim>\<open>right\<close> is the
  last element of \<^verbatim>\<open>data\<close>, or \<^verbatim>\<open>undefined\<close> when \<^verbatim>\<open>data\<close> is empty, so
  \<^verbatim>\<open>!rightPlain && right\<close> holds exactly when there is a last element and it is an array.
\<close>

definition getHtml_state :: "heap \<Rightarrow> content_unit list \<Rightarrow> error + (piece list \<times> ref list)" where
  "getHtml_state h data =
     (case loop h (Plain []) [] [] data of
        Inl e \<Rightarrow> Inl e
      | Inr (out, stack) \<Rightarrow>
          if data \<noteq> [] \<and> \<not> isPlain (last data)
          then render_all h Close (anns (last data)) out stack
          else Inr (out, stack))"

text \<open>
  The range argument. \<^verbatim>\<open>ve.Range\<close> is defined outside the two files embedded here,
  so its \<^verbatim>\<open>normalize\<close> method is a parameter; the default is the object literal
  \<^verbatim>\<open>{ 'start': 0, 'end': undefined }\<close>.
\<close>

record ve_range =
  range_start :: int
  range_end :: "int option"

definition getHtml ::
  "(ve_range \<Rightarrow> ve_range) \<Rightarrow> heap \<Rightarrow> content_unit list \<Rightarrow> ve_range option
     \<Rightarrow> error + string" where
  "getHtml normalize_range h data range_arg =
     (let range' = (case range_arg of
                      Some r \<Rightarrow> normalize_range r
                    | None \<Rightarrow> \<lparr>range_start = 0, range_end = None\<rparr>)
      in case getHtml_state h data of
           Inl e \<Rightarrow> Inl e
         | Inr (out, stack) \<Rightarrow> Inr (text_of out))"

subsection \<open>Notions used to state the properties\<close>

text \<open>
  The guard \<^verbatim>\<open>type in renderers\<close> for the annotation behind a reference: an
  annotation that passes it is called admitted.
\<close>

definition admitted :: "heap \<Rightarrow> ref \<Rightarrow> bool" where
  "admitted h a = (renderers_get (ann_type (h a)) \<noteq> None)"

text \<open>The type of the annotation is a key of the table \<^verbatim>\<open>annotationRenderers\<close>.\<close>

definition registered :: "heap \<Rightarrow> ref \<Rightarrow> bool" where
  "registered h a = (annotationRenderers (ann_type (h a)) \<noteq> None)"

text \<open>The open and the close markup of an admitted annotation.\<close>

definition open_text :: "heap \<Rightarrow> ref \<Rightarrow> string" where
  "open_text h a =
     (case renderers_get (ann_type (h a)) of
        Some r \<Rightarrow> resolve (open_rule r) (ann_data (h a))
      | None \<Rightarrow> [])"

definition close_text :: "heap \<Rightarrow> ref \<Rightarrow> string" where
  "close_text h a =
     (case renderers_get (ann_type (h a)) of
        Some r \<Rightarrow> resolve (close_rule r) (ann_data (h a))
      | None \<Rightarrow> [])"

text \<open>
  The requests of one pair of neighbours as the specification words them: a close for
  each annotation of the previous unit that the current unit lacks, in the previous
  unit's order, then an open for each annotation of the current unit that the previous
  unit lacks, in the current unit's order.
\<close>

definition diff_requests :: "content_unit \<Rightarrow> content_unit \<Rightarrow> (bias \<times> ref) list" where
  "diff_requests prev cur =
     map (Pair Close) (filter (\<lambda>a. a \<notin> set (anns cur)) (anns prev))
     @ map (Pair Open) (filter (\<lambda>a. a \<notin> set (anns prev)) (anns cur))"

text \<open>
  A pass seen as a flat sequence of steps: a request handed to \<^verbatim>\<open>renderAnnotation\<close>
  or the emission of a character.
\<close>

datatype step = Request bias ref | Emit string

fun exec ::
  "heap \<Rightarrow> step list \<Rightarrow> piece list \<Rightarrow> ref list \<Rightarrow> error + (piece list \<times> ref list)" where
  "exec h [] out stack = Inr (out, stack)"
| "exec h (Request b a # ss) out stack =
     (case renderAnnotation h b a stack of
        Inl e \<Rightarrow> Inl e
      | Inr (s, stack') \<Rightarrow> exec h ss (out @ s) stack')"
| "exec h (Emit c # ss) out stack = exec h ss (out @ [(Chr, htmlChar c)]) stack"

fun requests :: "(bias \<times> ref) list \<Rightarrow> step list" where
  "requests [] = []"
| "requests ((b, a) # rs) = Request b a # requests rs"

fun loop_steps :: "content_unit \<Rightarrow> content_unit list \<Rightarrow> step list" where
  "loop_steps left [] = []"
| "loop_steps left (right # rest) =
     requests (diff_requests left right) @ Emit (chr_of right) # loop_steps right rest"

definition trailing_steps :: "content_unit list \<Rightarrow> step list" where
  "trailing_steps data =
     (if data = [] then [] else requests (map (Pair Close) (anns (last data))))"

definition all_steps :: "content_unit list \<Rightarrow> step list" where
  "all_steps data = loop_steps (Plain []) data @ trailing_steps data"

text \<open>
  Bracket structure of the emitted tags. Every tag piece is an opening or a closing
  bracket labelled with an annotation; \<open>nest\<close> runs the usual bracket check from a
  list of open brackets (innermost last) and returns the brackets left open, or
  \<open>None\<close> when a closing bracket does not match the innermost open one.
\<close>

fun nest :: "ref list \<Rightarrow> tag list \<Rightarrow> ref list option" where
  "nest s [] = Some s"
| "nest s (TagOpen a # ts) = nest (s @ [a]) ts"
| "nest s (TagReopen a # ts) = nest (s @ [a]) ts"
| "nest s (TagClose a # ts) = (if s \<noteq> [] \<and> last s = a then nest (butlast s) ts else None)"
| "nest s (TagCloseAbove a # ts) = (if s \<noteq> [] \<and> last s = a then nest (butlast s) ts else None)"
| "nest s (Chr # ts) = nest s ts"

definition properly_nested :: "tag list \<Rightarrow> bool" where
  "properly_nested ts = (nest [] ts = Some [])"

text \<open>Counting, per annotation: emitted open and close markup, pushes and removals.\<close>

definition opens :: "ref \<Rightarrow> tag list \<Rightarrow> nat" where
  "opens a ts = count_list ts (TagOpen a) + count_list ts (TagReopen a)"

definition closes :: "ref \<Rightarrow> tag list \<Rightarrow> nat" where
  "closes a ts = count_list ts (TagClose a) + count_list ts (TagCloseAbove a)"

definition pushes :: "ref \<Rightarrow> tag list \<Rightarrow> nat" where
  "pushes a ts = count_list ts (TagOpen a)"

definition pops :: "ref \<Rightarrow> tag list \<Rightarrow> nat" where
  "pops a ts = count_list ts (TagClose a)"

text \<open>The result of a call with the strings dropped: the tags in order, and the stack.\<close>

definition tags_of :: "error + (piece list \<times> ref list) \<Rightarrow> error + (tag list \<times> ref list)" where
  "tags_of res = (case res of Inl e \<Rightarrow> Inl e | Inr (ps, st) \<Rightarrow> Inr (map fst ps, st))"

text \<open>The characters a sequence of steps emits, in order.\<close>

fun emitted :: "step list \<Rightarrow> string list" where
  "emitted [] = []"
| "emitted (Request b a # ss) = emitted ss"
| "emitted (Emit c # ss) = c # emitted ss"

text \<open>A unit with one annotation removed from its list.\<close>

fun without :: "ref \<Rightarrow> content_unit \<Rightarrow> content_unit" where
  "without a (Plain c) = Plain c"
| "without a (Formatted c as) = Formatted c (removeAll a as)"

text \<open>A store used for the concrete instances below.\<close>

definition example_heap :: heap where
  "example_heap r =
     (if r = 2 then \<lparr>ann_type = ''textStyle/bold'', ann_data = Map.empty\<rparr>
      else if r = 3 then \<lparr>ann_type = ''textStyle/italic'', ann_data = Map.empty\<rparr>
      else if r = 4 then \<lparr>ann_type = ''textStyle/bold'', ann_data = Map.empty\<rparr>
      else if r = 5 then \<lparr>ann_type = ''link/external'', ann_data = [''href'' \<mapsto> ''u'']\<rparr>
      else if r = 6 then \<lparr>ann_type = ''toString'', ann_data = Map.empty\<rparr>
      else \<lparr>ann_type = ''custom/none'', ann_data = Map.empty\<rparr>)"

section \<open>Auxiliary facts\<close>

subsection \<open>Searching and the single call\<close>

lemma inArray_None_iff: "inArray x xs = None \<longleftrightarrow> x \<notin> set xs"
  by (induction xs) auto

lemma inArray_Some:
  "inArray x xs = Some d \<Longrightarrow> d < length xs \<and> xs ! d = x \<and> x \<notin> set (take d xs)"
proof (induction xs arbitrary: d)
  case Nil
  then show ?case by simp
next
  case (Cons y ys)
  show ?case
  proof (cases "y = x")
    case True
    with Cons.prems show ?thesis by simp
  next
    case False
    with Cons.prems obtain d' where d': "inArray x ys = Some d'" "d = Suc d'"
      by auto
    from Cons.IH[OF d'(1)] d'(2) False show ?thesis by simp
  qed
qed

lemma inArray_mem: "x \<in> set xs \<Longrightarrow> \<exists>d. inArray x xs = Some d"
  using inArray_None_iff[of x xs] by (cases "inArray x xs") auto

lemma close_each_eq:
  "close_each h as =
     (if \<forall>a\<in>set as. admitted h a
      then Inr (map (\<lambda>a. (TagCloseAbove a, close_text h a)) as)
      else Inl TypeError)"
  by (induction as) (auto simp: admitted_def close_text_def split: option.splits)

lemma open_each_eq:
  "open_each h as =
     (if \<forall>a\<in>set as. admitted h a
      then Inr (map (\<lambda>a. (TagReopen a, open_text h a)) as)
      else Inl TypeError)"
  by (induction as) (auto simp: admitted_def open_text_def split: option.splits)

lemma renderAnnotation_not_admitted:
  "\<not> admitted h a \<Longrightarrow> renderAnnotation h b a stack = Inr ([], stack)"
  by (simp add: renderAnnotation_def admitted_def)

lemma renderAnnotation_open:
  "admitted h a \<Longrightarrow>
   renderAnnotation h Open a stack = Inr ([(TagOpen a, open_text h a)], stack @ [a])"
  by (auto simp: renderAnnotation_def admitted_def open_text_def)

lemma renderAnnotation_close_top:
  "admitted h a \<Longrightarrow> stack \<noteq> [] \<Longrightarrow> last stack = a \<Longrightarrow>
   renderAnnotation h Close a stack = Inr ([(TagClose a, close_text h a)], butlast stack)"
  by (auto simp: renderAnnotation_def admitted_def close_text_def)

lemma renderAnnotation_close_missing:
  "admitted h a \<Longrightarrow> a \<notin> set stack \<Longrightarrow> renderAnnotation h Close a stack = Inl InvalidStack"
  using inArray_None_iff[of a stack]
  by (auto simp: renderAnnotation_def admitted_def)

lemma renderAnnotation_close_buried:
  assumes "admitted h a" "inArray a stack = Some depth" "last stack \<noteq> a"
  shows "renderAnnotation h Close a stack =
           (if \<forall>r\<in>set (drop (Suc depth) stack). admitted h r
            then Inr (map (\<lambda>r. (TagCloseAbove r, close_text h r)) (rev (drop (Suc depth) stack))
                      @ [(TagClose a, close_text h a)]
                      @ map (\<lambda>r. (TagReopen r, open_text h r)) (drop (Suc depth) stack),
                      take depth stack @ drop (Suc depth) stack)
            else Inl TypeError)"
  using assms
  by (auto simp: renderAnnotation_def admitted_def close_text_def close_each_eq open_each_eq)


subsection \<open>The pass as a sequence of steps\<close>

lemma requests_append: "requests (xs @ ys) = requests xs @ requests ys"
  by (induction xs rule: requests.induct) auto

lemma exec_append:
  "exec h (ss1 @ ss2) out stack =
     (case exec h ss1 out stack of
        Inl e \<Rightarrow> Inl e
      | Inr (out', stack') \<Rightarrow> exec h ss2 out' stack')"
  by (induction h ss1 out stack rule: exec.induct) (auto split: sum.splits)

lemma render_all_exec:
  "render_all h b as out stack = exec h (requests (map (Pair b) as)) out stack"
  by (induction as arbitrary: out stack) (auto split: sum.splits)

lemma render_missing_exec:
  "render_missing h b as other out stack =
     exec h (requests (map (Pair b) (filter (\<lambda>a. a \<notin> set other) as))) out stack"
  by (induction as arbitrary: out stack) (auto simp: inArray_None_iff split: sum.splits)

lemma transition_exec:
  "transition h left right out stack = exec h (requests (diff_requests left right)) out stack"
proof (cases left)
  case (Plain c)
  then show ?thesis
    by (cases right) (simp_all add: transition_def diff_requests_def render_all_exec)
next
  case (Formatted c as)
  then show ?thesis
    by (cases right)
       (auto simp: transition_def diff_requests_def render_all_exec render_missing_exec
          requests_append exec_append split: sum.splits)
qed

lemma loop_exec: "loop h left out stack data = exec h (loop_steps left data) out stack"
proof (induction data arbitrary: left out stack)
  case Nil
  then show ?case by simp
next
  case (Cons right rest)
  show ?case
    by (simp add: transition_exec exec_append Cons.IH split: sum.splits)
qed

lemma getHtml_state_exec: "getHtml_state h data = exec h (all_steps data) [] []"
proof (cases "data = []")
  case True
  then show ?thesis by (simp add: getHtml_state_def all_steps_def trailing_steps_def)
next
  case False
  show ?thesis
  proof (cases "isPlain (last data)")
    case True
    then obtain c where "last data = Plain c" by (cases "last data") auto
    with False show ?thesis
      by (simp add: getHtml_state_def all_steps_def trailing_steps_def exec_append loop_exec
            split: sum.splits)
  next
    case nonplain: False
    with \<open>data \<noteq> []\<close> show ?thesis
      by (simp add: getHtml_state_def all_steps_def trailing_steps_def exec_append loop_exec
            render_all_exec split: sum.splits)
  qed
qed


subsection \<open>Case analysis of a returning call\<close>

lemma renderAnnotation_Inr_cases:
  assumes "renderAnnotation h b a stack = Inr (ps, stack')"
  obtains
    (unregistered) "\<not> admitted h a" "ps = []" "stack' = stack"
  | (pushed) "admitted h a" "b = Open" "ps = [(TagOpen a, open_text h a)]"
      "stack' = stack @ [a]"
  | (top) "admitted h a" "b = Close" "stack \<noteq> []" "last stack = a"
      "ps = [(TagClose a, close_text h a)]" "stack' = butlast stack"
  | (buried) depth where "admitted h a" "b = Close" "inArray a stack = Some depth"
      "last stack \<noteq> a" "\<forall>r\<in>set (drop (Suc depth) stack). admitted h r"
      "ps = map (\<lambda>r. (TagCloseAbove r, close_text h r)) (rev (drop (Suc depth) stack))
            @ [(TagClose a, close_text h a)]
            @ map (\<lambda>r. (TagReopen r, open_text h r)) (drop (Suc depth) stack)"
      "stack' = take depth stack @ drop (Suc depth) stack"
proof (cases "admitted h a")
  case False
  with assms that(1) show ?thesis by (simp add: renderAnnotation_not_admitted)
next
  case reg: True
  show ?thesis
  proof (cases b)
    case Open
    with assms reg that(2) show ?thesis by (simp add: renderAnnotation_open)
  next
    case Close
    show ?thesis
    proof (cases "stack \<noteq> [] \<and> last stack = a")
      case True
      with assms reg Close that(3) show ?thesis by (simp add: renderAnnotation_close_top)
    next
      case False
      show ?thesis
      proof (cases "inArray a stack")
        case None
        then have "a \<notin> set stack" by (simp add: inArray_None_iff)
        with assms reg Close show ?thesis by (simp add: renderAnnotation_close_missing)
      next
        case (Some depth)
        then have "stack \<noteq> []" by auto
        with False have ne: "last stack \<noteq> a" by simp
        from assms Close renderAnnotation_close_buried[OF reg Some ne]
        show ?thesis using that(4)[OF reg Close Some ne] by (auto split: if_splits)
      qed
    qed
  qed
qed

lemma stack_split:
  assumes "inArray a stack = Some depth"
  shows "stack = take depth stack @ a # drop (Suc depth) stack"
  using inArray_Some[OF assms] id_take_nth_drop[of depth stack] by auto

subsection \<open>Only admitted annotations on the stack\<close>

lemma renderAnnotation_admitted:
  assumes "renderAnnotation h b a stack = Inr (ps, stack')" "\<forall>r\<in>set stack. admitted h r"
  shows "\<forall>r\<in>set stack'. admitted h r"
  using assms(1)
proof (cases rule: renderAnnotation_Inr_cases)
  case unregistered
  with assms(2) show ?thesis by simp
next
  case pushed
  with assms(2) show ?thesis by simp
next
  case top
  with assms(2) show ?thesis by (auto dest: in_set_butlastD)
next
  case (buried depth)
  with assms(2) show ?thesis by (auto dest: in_set_takeD in_set_dropD)
qed

lemma renderAnnotation_no_TypeError:
  assumes "\<forall>r\<in>set stack. admitted h r"
  shows "renderAnnotation h b a stack \<noteq> Inl TypeError"
proof -
  have "\<forall>r\<in>set (drop n stack). admitted h r" for n
    using assms by (auto dest: in_set_dropD)
  then show ?thesis
    by (auto simp: renderAnnotation_def close_each_eq open_each_eq
        split: option.splits bias.splits)
qed

lemma exec_admitted:
  "exec h ss out stack = Inr (out', stack') \<Longrightarrow> \<forall>r\<in>set stack. admitted h r \<Longrightarrow>
   \<forall>r\<in>set stack'. admitted h r"
proof (induction h ss out stack rule: exec.induct)
  case (1 h out stack)
  then show ?case by simp
next
  case (2 h b a ss out stack)
  from "2.prems"(1) obtain s st where
    r: "renderAnnotation h b a stack = Inr (s, st)" and e: "exec h ss (out @ s) st = Inr (out', stack')"
    by (auto split: sum.splits)
  from renderAnnotation_admitted[OF r "2.prems"(2)] "2.IH"[OF r refl e]
  show ?case by simp
next
  case (3 h c ss out stack)
  then show ?case by simp
qed

lemma exec_no_TypeError:
  "\<forall>r\<in>set stack. admitted h r \<Longrightarrow> exec h ss out stack \<noteq> Inl TypeError"
proof (induction h ss out stack rule: exec.induct)
  case (1 h out stack)
  then show ?case by simp
next
  case (2 h b a ss out stack)
  show ?case
  proof (cases "renderAnnotation h b a stack")
    case (Inl e)
    with renderAnnotation_no_TypeError[OF "2.prems", of b a] show ?thesis by auto
  next
    case (Inr p)
    obtain s st where p: "p = (s, st)" by (cases p)
    from renderAnnotation_admitted[OF Inr[unfolded p] "2.prems"]
    have "\<forall>r\<in>set st. admitted h r" .
    from "2.IH"[OF Inr[unfolded p] refl this] Inr p show ?thesis by simp
  qed
next
  case (3 h c ss out stack)
  then show ?case by simp
qed


subsection \<open>The emitted tags are nested like the stack\<close>

lemma nest_append:
  "nest s (ts1 @ ts2) = (case nest s ts1 of None \<Rightarrow> None | Some s' \<Rightarrow> nest s' ts2)"
  by (induction s ts1 rule: nest.induct) auto

lemma nest_close_above: "nest (s @ xs) (map TagCloseAbove (rev xs)) = Some s"
proof (induction xs rule: rev_induct)
  case Nil
  then show ?case by simp
next
  case (snoc x xs)
  have "butlast (s @ xs @ [x]) = s @ xs"
    by (simp add: butlast_append)
  with snoc show ?case by simp
qed

lemma nest_reopen: "nest s (map TagReopen xs) = Some (s @ xs)"
  by (induction xs arbitrary: s) auto

lemma renderAnnotation_nest:
  assumes "renderAnnotation h b a stack = Inr (ps, stack')"
  shows "nest stack (map fst ps) = Some stack'"
  using assms
proof (cases rule: renderAnnotation_Inr_cases)
  case unregistered
  then show ?thesis by simp
next
  case pushed
  then show ?thesis by simp
next
  case top
  then show ?thesis by simp
next
  case (buried depth)
  let ?above = "drop (Suc depth) stack"
  have split: "stack = (take depth stack @ [a]) @ ?above"
    using stack_split[OF buried(3)] by simp
  have tags: "map fst ps = map TagCloseAbove (rev ?above) @ TagClose a # map TagReopen ?above"
    by (simp add: buried(6) comp_def rev_map)
  have "nest stack (map TagCloseAbove (rev ?above)) = Some (take depth stack @ [a])"
    using nest_close_above[of "take depth stack @ [a]" ?above] split by simp
  then show ?thesis
    by (simp add: tags nest_append nest_reopen buried(7))
qed

lemma exec_out:
  "exec h ss out stack =
     (case exec h ss [] stack of Inl e \<Rightarrow> Inl e | Inr (ps, st) \<Rightarrow> Inr (out @ ps, st))"
proof (induction ss arbitrary: out stack)
  case Nil
  then show ?case by simp
next
  case (Cons s ss)
  show ?case
  proof (cases s)
    case (Request b a)
    show ?thesis
    proof (cases "renderAnnotation h b a stack")
      case (Inl e)
      with Request show ?thesis by simp
    next
      case (Inr p)
      obtain q st where p: "p = (q, st)" by (cases p)
      show ?thesis
        using Cons.IH[of "out @ q" st] Cons.IH[of q st] Request Inr p
        by (auto split: sum.splits)
    qed
  next
    case (Emit c)
    show ?thesis
      using Cons.IH[of "out @ [(Chr, htmlChar c)]" stack] Cons.IH[of "[(Chr, htmlChar c)]" stack] Emit
      by (auto split: sum.splits)
  qed
qed

lemma exec_Request_Inr:
  assumes "exec h (Request b a # ss) [] stack = Inr (ps, stack')"
  obtains q st ps' where "renderAnnotation h b a stack = Inr (q, st)"
    "exec h ss [] st = Inr (ps', stack')" "ps = q @ ps'"
proof -
  from assms obtain q st where r: "renderAnnotation h b a stack = Inr (q, st)"
    and e: "exec h ss q st = Inr (ps, stack')"
    by (auto split: sum.splits)
  from e exec_out[of h ss q st] obtain ps' where
    "exec h ss [] st = Inr (ps', stack')" "ps = q @ ps'"
    by (auto split: sum.splits)
  with r that show ?thesis by blast
qed

lemma exec_Emit_Inr:
  assumes "exec h (Emit c # ss) [] stack = Inr (ps, stack')"
  obtains ps' where "exec h ss [] stack = Inr (ps', stack')" "ps = (Chr, htmlChar c) # ps'"
proof -
  from assms exec_out[of h ss "[(Chr, htmlChar c)]" stack] obtain ps' where
    "exec h ss [] stack = Inr (ps', stack')" "ps = [(Chr, htmlChar c)] @ ps'"
    by (auto split: sum.splits)
  with that show ?thesis by simp
qed

lemma exec_nest:
  "exec h ss [] stack = Inr (ps, stack') \<Longrightarrow> nest stack (map fst ps) = Some stack'"
proof (induction ss arbitrary: stack ps)
  case Nil
  then show ?case by simp
next
  case (Cons s ss)
  show ?case
  proof (cases s)
    case (Request b a)
    have "exec h (Request b a # ss) [] stack = Inr (ps, stack')"
      using Cons.prems unfolding Request .
    then obtain q st ps' where
      r: "renderAnnotation h b a stack = Inr (q, st)" and
      e: "exec h ss [] st = Inr (ps', stack')" and ps: "ps = q @ ps'"
      by (rule exec_Request_Inr)
    from renderAnnotation_nest[OF r] Cons.IH[OF e] ps show ?thesis
      by (simp add: nest_append)
  next
    case (Emit c)
    have "exec h (Emit c # ss) [] stack = Inr (ps, stack')"
      using Cons.prems unfolding Emit .
    then obtain ps' where
      e: "exec h ss [] stack = Inr (ps', stack')" and ps: "ps = (Chr, htmlChar c) # ps'"
      by (rule exec_Emit_Inr)
    from Cons.IH[OF e] ps show ?thesis by simp
  qed
qed


subsection \<open>Counting tags\<close>

lemma count_list_butlast:
  "s \<noteq> [] \<Longrightarrow> count_list s a = count_list (butlast s) a + (if last s = a then 1 else 0)"
  by (induction s rule: rev_induct) auto

lemma nest_counts:
  "nest s ts = Some s' \<Longrightarrow> count_list s a + opens a ts = closes a ts + count_list s' a"
proof (induction s ts rule: nest.induct)
  case (1 s)
  then show ?case by (simp add: opens_def closes_def)
next
  case (2 s b ts)
  then show ?case by (auto simp: opens_def closes_def)
next
  case (3 s b ts)
  then show ?case by (auto simp: opens_def closes_def)
next
  case (4 s b ts)
  from "4.prems" have ne: "s \<noteq> []" and l: "last s = b" and n: "nest (butlast s) ts = Some s'"
    by (auto split: if_splits)
  from "4.IH"[OF _ n] ne l count_list_butlast[OF ne, of a] show ?case
    by (auto simp: opens_def closes_def)
next
  case (5 s b ts)
  from "5.prems" have ne: "s \<noteq> []" and l: "last s = b" and n: "nest (butlast s) ts = Some s'"
    by (auto split: if_splits)
  from "5.IH"[OF _ n] ne l count_list_butlast[OF ne, of a] show ?case
    by (auto simp: opens_def closes_def)
next
  case (6 s ts)
  then show ?case by (auto simp: opens_def closes_def)
qed

lemma count_list_map_other: "(\<And>x. f x \<noteq> y) \<Longrightarrow> count_list (map f xs) y = 0"
  by (induction xs) auto

lemma renderAnnotation_pushes:
  assumes "renderAnnotation h b a stack = Inr (ps, stack')"
  shows "count_list stack r + pushes r (map fst ps) = pops r (map fst ps) + count_list stack' r"
  using assms
proof (cases rule: renderAnnotation_Inr_cases)
  case unregistered
  then show ?thesis by (simp add: pushes_def pops_def)
next
  case pushed
  then show ?thesis by (simp add: pushes_def pops_def)
next
  case top
  with count_list_butlast[of stack r] show ?thesis by (simp add: pushes_def pops_def)
next
  case (buried depth)
  let ?above = "drop (Suc depth) stack"
  have tags: "map fst ps = map TagCloseAbove (rev ?above) @ TagClose a # map TagReopen ?above"
    by (simp add: buried(6) comp_def rev_map)
  have "count_list stack r = count_list (take depth stack @ a # ?above) r"
    using stack_split[OF buried(3)] by simp
  then show ?thesis
    by (simp add: tags buried(7) pushes_def pops_def count_list_map_other)
qed

lemma exec_pushes:
  "exec h ss [] stack = Inr (ps, stack') \<Longrightarrow>
   count_list stack r + pushes r (map fst ps) = pops r (map fst ps) + count_list stack' r"
proof (induction ss arbitrary: stack ps)
  case Nil
  then show ?case by (simp add: pushes_def pops_def)
next
  case (Cons s ss)
  show ?case
  proof (cases s)
    case (Request b a)
    have "exec h (Request b a # ss) [] stack = Inr (ps, stack')"
      using Cons.prems unfolding Request .
    then obtain q st ps' where
      r: "renderAnnotation h b a stack = Inr (q, st)" and
      e: "exec h ss [] st = Inr (ps', stack')" and ps: "ps = q @ ps'"
      by (rule exec_Request_Inr)
    from renderAnnotation_pushes[OF r, of r] Cons.IH[OF e] ps show ?thesis
      by (simp add: pushes_def pops_def)
  next
    case (Emit c)
    have "exec h (Emit c # ss) [] stack = Inr (ps, stack')"
      using Cons.prems unfolding Emit .
    then obtain ps' where
      e: "exec h ss [] stack = Inr (ps', stack')" and ps: "ps = (Chr, htmlChar c) # ps'"
      by (rule exec_Emit_Inr)
    from Cons.IH[OF e] ps show ?thesis by (simp add: pushes_def pops_def)
  qed
qed


subsection \<open>Units without repeated annotations\<close>

lemma exec_append_Inr:
  assumes "exec h ss1 [] stack = Inr (ps1, st1)" "exec h ss2 [] st1 = Inr (ps2, st2)"
  shows "exec h (ss1 @ ss2) [] stack = Inr (ps1 @ ps2, st2)"
  using assms exec_out[of h ss2 ps1 st1] by (simp add: exec_append)

lemma exec_opens:
  "exec h (requests (map (Pair Open) as)) out stack =
     Inr (out @ map (\<lambda>a. (TagOpen a, open_text h a)) (filter (admitted h) as),
          stack @ filter (admitted h) as)"
  by (induction as arbitrary: out stack)
     (auto simp: renderAnnotation_open renderAnnotation_not_admitted)

lemma renderAnnotation_close_distinct:
  assumes "distinct stack" "\<forall>r\<in>set stack. admitted h r" "a \<in> set stack"
  shows "\<exists>ps stack'. renderAnnotation h Close a stack = Inr (ps, stack')
           \<and> distinct stack' \<and> set stack' = set stack - {a}"
proof (cases "last stack = a")
  case True
  from assms(3) have ne: "stack \<noteq> []" by auto
  from ne True obtain bs where bs: "stack = bs @ [a]"
    by (metis append_butlast_last_id)
  with assms(1) have "distinct (butlast stack)" "set (butlast stack) = set stack - {a}"
    by auto
  with assms ne True show ?thesis by (simp add: renderAnnotation_close_top)
next
  case False
  from assms(3) obtain depth where d: "inArray a stack = Some depth"
    using inArray_mem by fastforce
  have above: "\<forall>r\<in>set (drop (Suc depth) stack). admitted h r"
    using assms(2) by (auto dest: in_set_dropD)
  have reg: "admitted h a" using assms(2,3) by simp
  from stack_split[OF d] assms(1)
  have "distinct (take depth stack @ a # drop (Suc depth) stack)" by simp
  then have dist: "distinct (take depth stack @ drop (Suc depth) stack)"
    and nin: "a \<notin> set (take depth stack @ drop (Suc depth) stack)"
    by auto
  have "set stack = insert a (set (take depth stack @ drop (Suc depth) stack))"
    using stack_split[OF d] by (metis Un_insert_right list.simps(15) set_append)
  with nin have "set (take depth stack @ drop (Suc depth) stack) = set stack - {a}"
    by auto
  with dist above show ?thesis
    by (simp add: renderAnnotation_close_buried[OF reg d False])
qed

lemma exec_closes:
  assumes "distinct stack" "\<forall>r\<in>set stack. admitted h r" "distinct as"
    "\<forall>a\<in>set as. admitted h a \<longrightarrow> a \<in> set stack"
  shows "\<exists>ps stack'. exec h (requests (map (Pair Close) as)) [] stack = Inr (ps, stack')
           \<and> distinct stack' \<and> set stack' = set stack - set as"
  using assms
proof (induction as arbitrary: stack)
  case Nil
  then show ?case by simp
next
  case (Cons a as)
  show ?case
  proof (cases "admitted h a")
    case False
    with Cons.prems(2) have nin: "a \<notin> set stack" by auto
    from Cons.prems have "\<exists>ps stack'. exec h (requests (map (Pair Close) as)) [] stack = Inr (ps, stack')
           \<and> distinct stack' \<and> set stack' = set stack - set as"
      by (intro Cons.IH) auto
    with False nin show ?thesis
      by (auto simp: renderAnnotation_not_admitted)
  next
    case True
    with Cons.prems(4) have "a \<in> set stack" by simp
    from renderAnnotation_close_distinct[OF Cons.prems(1,2) this] obtain q st where
      r: "renderAnnotation h Close a stack = Inr (q, st)" and
      d: "distinct st" and s: "set st = set stack - {a}"
      by blast
    have "\<forall>r\<in>set st. admitted h r" using s Cons.prems(2) by auto
    moreover have "\<forall>x\<in>set as. admitted h x \<longrightarrow> x \<in> set st"
      using Cons.prems(3,4) s by auto
    moreover have "distinct as" using Cons.prems(3) by simp
    ultimately obtain ps' st' where
      e: "exec h (requests (map (Pair Close) as)) [] st = Inr (ps', st')" and
      d': "distinct st'" and s': "set st' = set st - set as"
      using Cons.IH[OF d] by blast
    from e exec_out[of h "requests (map (Pair Close) as)" q st]
    have "exec h (requests (map (Pair Close) (a # as))) [] stack = Inr (q @ ps', st')"
      by (simp add: r)
    moreover have "set st' = set stack - set (a # as)" using s s' by auto
    ultimately show ?thesis using d' by blast
  qed
qed


lemma transition_distinct:
  assumes "distinct (anns left)" "distinct (anns right)" "distinct stack"
    "set stack = {a \<in> set (anns left). admitted h a}"
  shows "\<exists>ps stack'. exec h (requests (diff_requests left right)) [] stack = Inr (ps, stack')
           \<and> distinct stack' \<and> set stack' = {a \<in> set (anns right). admitted h a}"
proof -
  let ?C = "filter (\<lambda>a. a \<notin> set (anns right)) (anns left)"
  let ?O = "filter (\<lambda>a. a \<notin> set (anns left)) (anns right)"
  have "\<forall>r\<in>set stack. admitted h r" using assms(4) by simp
  moreover have "distinct ?C" using assms(1) by simp
  moreover have "\<forall>a\<in>set ?C. admitted h a \<longrightarrow> a \<in> set stack" using assms(4) by simp
  ultimately obtain ps1 st1 where
    c: "exec h (requests (map (Pair Close) ?C)) [] stack = Inr (ps1, st1)" and
    d1: "distinct st1" and s1: "set st1 = set stack - set ?C"
    using exec_closes[OF assms(3)] by blast
  let ?ps2 = "map (\<lambda>a. (TagOpen a, open_text h a)) (filter (admitted h) ?O)"
  let ?st2 = "st1 @ filter (admitted h) ?O"
  have o: "exec h (requests (map (Pair Open) ?O)) [] st1 = Inr (?ps2, ?st2)"
    by (simp add: exec_opens)
  have e: "exec h (requests (diff_requests left right)) [] stack = Inr (ps1 @ ?ps2, ?st2)"
    unfolding diff_requests_def requests_append by (rule exec_append_Inr[OF c o])
  have "set st1 \<subseteq> set (anns left)" using s1 assms(4) by auto
  then have "set st1 \<inter> set (filter (admitted h) ?O) = {}" by auto
  with d1 assms(2) have d2: "distinct ?st2" by simp
  have s2: "set ?st2 = {a \<in> set (anns right). admitted h a}"
    using s1 assms(4) by auto
  from e d2 s2 show ?thesis by blast
qed

lemma loop_distinct:
  assumes "\<forall>u\<in>set data. distinct (anns u)" "distinct (anns left)" "distinct stack"
    "set stack = {a \<in> set (anns left). admitted h a}"
  shows "\<exists>ps stack'. exec h (loop_steps left data) [] stack = Inr (ps, stack')
           \<and> distinct stack' \<and> set stack' = {a \<in> set (anns (last (left # data))). admitted h a}"
  using assms
proof (induction data arbitrary: left stack)
  case Nil
  then show ?case by simp
next
  case (Cons right rest)
  have dr: "distinct (anns right)" using Cons.prems(1) by simp
  from transition_distinct[OF Cons.prems(2) dr Cons.prems(3,4)] obtain ps1 st1 where
    t: "exec h (requests (diff_requests left right)) [] stack = Inr (ps1, st1)" and
    d1: "distinct st1" and s1: "set st1 = {a \<in> set (anns right). admitted h a}"
    by blast
  have "\<forall>u\<in>set rest. distinct (anns u)" using Cons.prems(1) by simp
  from Cons.IH[OF this dr d1 s1] obtain ps2 st2 where
    l: "exec h (loop_steps right rest) [] st1 = Inr (ps2, st2)" and
    d2: "distinct st2" and
    s2: "set st2 = {a \<in> set (anns (last (right # rest))). admitted h a}"
    by blast
  from l exec_out[of h "loop_steps right rest" "[(Chr, htmlChar (chr_of right))]" st1]
  have "exec h (Emit (chr_of right) # loop_steps right rest) [] st1
          = Inr ((Chr, htmlChar (chr_of right)) # ps2, st2)"
    by simp
  from exec_append_Inr[OF t this]
  have "exec h (loop_steps left (right # rest)) [] stack
          = Inr (ps1 @ (Chr, htmlChar (chr_of right)) # ps2, st2)"
    by simp
  with d2 s2 show ?case by auto
qed

lemma getHtml_state_distinct:
  assumes "\<forall>u\<in>set data. distinct (anns u)"
  shows "\<exists>ps. getHtml_state h data = Inr (ps, [])"
proof -
  have "\<exists>ps stack'. exec h (loop_steps (Plain []) data) [] [] = Inr (ps, stack')
           \<and> distinct stack' \<and> set stack' = {a \<in> set (anns (last (Plain [] # data))). admitted h a}"
    by (rule loop_distinct[OF assms]) simp_all
  then obtain ps1 st1 where
    l: "exec h (loop_steps (Plain []) data) [] [] = Inr (ps1, st1)" and
    d1: "distinct st1" and
    s1: "set st1 = {a \<in> set (anns (last (Plain [] # data))). admitted h a}"
    by blast
  show ?thesis
  proof (cases "data = []")
    case True
    with l s1 show ?thesis
      by (simp add: getHtml_state_exec all_steps_def trailing_steps_def)
  next
    case False
    then have da: "distinct (anns (last data))" using assms by simp
    have r1: "\<forall>r\<in>set st1. admitted h r" using s1 by simp
    have "\<forall>a\<in>set (anns (last data)). admitted h a \<longrightarrow> a \<in> set st1"
      using s1 False by simp
    from exec_closes[OF d1 r1 da this] obtain ps2 st2 where
      c: "exec h (requests (map (Pair Close) (anns (last data)))) [] st1 = Inr (ps2, st2)" and
      s2: "set st2 = set st1 - set (anns (last data))"
      by blast
    from s2 s1 False have "set st2 = {}" by auto
    then have "st2 = []" by simp
    with exec_append_Inr[OF l c] False show ?thesis
      by (simp add: getHtml_state_exec all_steps_def trailing_steps_def)
  qed
qed

subsection \<open>Plain input\<close>

lemma loop_plain:
  "isPlain left \<Longrightarrow>
   loop h left out stack (map Plain cs) = Inr (out @ map (\<lambda>c. (Chr, htmlChar c)) cs, stack)"
  by (induction cs arbitrary: left out) (simp_all add: transition_def)

subsection \<open>Requests for one annotation left out\<close>

lemma exec_skip_not_admitted:
  "\<not> admitted h a \<Longrightarrow>
   exec h (filter (\<lambda>s. s \<noteq> Request Open a \<and> s \<noteq> Request Close a) ss) out stack
     = exec h ss out stack"
proof (induction h ss out stack rule: exec.induct)
  case (1 h out stack)
  then show ?case by simp
next
  case (2 h b x ss out stack)
  show ?case
  proof (cases "x = a")
    case True
    with "2.prems" have r: "renderAnnotation h b x stack = Inr ([], stack)"
      by (simp add: renderAnnotation_not_admitted)
    from "2.IH"[OF r refl "2.prems"] True r show ?thesis
      by (cases b) simp_all
  next
    case False
    with "2.IH" "2.prems" show ?thesis by (auto split: sum.splits)
  qed
next
  case (3 h c ss out stack)
  then show ?case by simp
qed

lemma requests_removeAll:
  "requests (map (Pair b) (removeAll a xs))
     = filter (\<lambda>s. s \<noteq> Request Open a \<and> s \<noteq> Request Close a) (requests (map (Pair b) xs))"
  by (induction xs) (cases b; auto)+

lemma filter_removeAll_other:
  "filter (\<lambda>x. x \<notin> set (removeAll a ys)) (removeAll a xs)
     = removeAll a (filter (\<lambda>x. x \<notin> set ys) xs)"
  by (induction xs) auto

lemma anns_without: "anns (without a u) = removeAll a (anns u)"
  by (cases u) simp_all

lemma chr_of_without: "chr_of (without a u) = chr_of u"
  by (cases u) simp_all

lemma diff_requests_without:
  "requests (diff_requests (without a l) (without a r))
     = filter (\<lambda>s. s \<noteq> Request Open a \<and> s \<noteq> Request Close a) (requests (diff_requests l r))"
  unfolding diff_requests_def anns_without filter_removeAll_other
  by (simp only: requests_append map_append filter_append requests_removeAll)

lemma loop_steps_without:
  "loop_steps (without a left) (map (without a) data)
     = filter (\<lambda>s. s \<noteq> Request Open a \<and> s \<noteq> Request Close a) (loop_steps left data)"
  by (induction data arbitrary: left) (simp_all add: diff_requests_without chr_of_without)

lemma all_steps_without:
  "all_steps (map (without a) data)
     = filter (\<lambda>s. s \<noteq> Request Open a \<and> s \<noteq> Request Close a) (all_steps data)"
proof -
  have "loop_steps (Plain []) (map (without a) data)
          = filter (\<lambda>s. s \<noteq> Request Open a \<and> s \<noteq> Request Close a) (loop_steps (Plain []) data)"
    using loop_steps_without[of a "Plain []" data] by simp
  moreover have "trailing_steps (map (without a) data)
          = filter (\<lambda>s. s \<noteq> Request Open a \<and> s \<noteq> Request Close a) (trailing_steps data)"
    by (simp add: trailing_steps_def last_map anns_without requests_removeAll)
  ultimately show ?thesis by (simp add: all_steps_def)
qed

lemma getHtml_state_without:
  "\<not> admitted h a \<Longrightarrow> getHtml_state h (map (without a) data) = getHtml_state h data"
  by (simp add: getHtml_state_exec all_steps_without exec_skip_not_admitted)

subsection \<open>Two annotations that overlap\<close>

lemma close_under_one:
  assumes "A \<noteq> B" "admitted h A" "admitted h B"
  shows "renderAnnotation h Close A [A, B] =
           Inr ([(TagCloseAbove B, close_text h B), (TagClose A, close_text h A),
                 (TagReopen B, open_text h B)], [B])"
proof -
  have "inArray A [A, B] = Some 0" by simp
  from renderAnnotation_close_buried[OF assms(2) this] assms show ?thesis by simp
qed

lemma overlap_loop:
  assumes "A \<noteq> B" "admitted h A" "admitted h B"
  shows "loop h (Plain []) [] [] [Formatted c1 [A], Formatted c2 [A, B]] =
           Inr ([(TagOpen A, open_text h A), (Chr, htmlChar c1),
                 (TagOpen B, open_text h B), (Chr, htmlChar c2)], [A, B])"
  using assms by (simp add: transition_def renderAnnotation_open)

lemma overlap_transition:
  assumes "A \<noteq> B" "admitted h A" "admitted h B"
  shows "transition h (Formatted c2 [A, B]) (Formatted c3 [B]) out [A, B] =
           Inr (out @ [(TagCloseAbove B, close_text h B), (TagClose A, close_text h A),
                       (TagReopen B, open_text h B)], [B])"
  using assms by (simp add: transition_def close_under_one)

lemma overlap_state:
  assumes "A \<noteq> B" "admitted h A" "admitted h B"
  shows "getHtml_state h [Formatted c1 [A], Formatted c2 [A, B], Formatted c3 [B]] =
           Inr ([(TagOpen A, open_text h A), (Chr, htmlChar c1),
                 (TagOpen B, open_text h B), (Chr, htmlChar c2),
                 (TagCloseAbove B, close_text h B), (TagClose A, close_text h A),
                 (TagReopen B, open_text h B), (Chr, htmlChar c3),
                 (TagClose B, close_text h B)], [])"
  using assms
  by (simp add: getHtml_state_def transition_def renderAnnotation_open close_under_one
        renderAnnotation_close_top)

subsection \<open>A failing request ends the pass\<close>

lemma exec_abort:
  assumes "exec h pre [] [] = Inr (out, stack)" "renderAnnotation h b a stack = Inl e"
  shows "exec h (pre @ Request b a # post) [] [] = Inl e"
  using assms by (simp add: exec_append)

subsection \<open>The tags depend on identities only\<close>

lemma renderAnnotation_tags:
  assumes "\<forall>r. admitted h' r = admitted h r"
  shows "tags_of (renderAnnotation h' b a stack) = tags_of (renderAnnotation h b a stack)"
proof (cases "admitted h a")
  case False
  with assms have "\<not> admitted h' a" by simp
  with False show ?thesis by (simp add: renderAnnotation_not_admitted)
next
  case reg: True
  with assms have reg': "admitted h' a" by simp
  show ?thesis
  proof (cases b)
    case Open
    with reg reg' show ?thesis by (simp add: renderAnnotation_open tags_of_def)
  next
    case Close
    show ?thesis
    proof (cases "stack \<noteq> [] \<and> last stack = a")
      case True
      with reg reg' Close show ?thesis by (simp add: renderAnnotation_close_top tags_of_def)
    next
      case False
      show ?thesis
      proof (cases "inArray a stack")
        case None
        then have "a \<notin> set stack" by (simp add: inArray_None_iff)
        with reg reg' Close show ?thesis by (simp add: renderAnnotation_close_missing)
      next
        case (Some depth)
        then have "stack \<noteq> []" by auto
        with False have ne: "last stack \<noteq> a" by simp
        show ?thesis
          unfolding Close renderAnnotation_close_buried[OF reg Some ne]
            renderAnnotation_close_buried[OF reg' Some ne]
          using assms by (simp add: tags_of_def comp_def)
      qed
    qed
  qed
qed


lemma exec_tags:
  assumes "\<forall>r. admitted h' r = admitted h r" "map fst out' = map fst out"
  shows "tags_of (exec h' ss out' stack) = tags_of (exec h ss out stack)"
  using assms(2)
proof (induction ss arbitrary: out out' stack)
  case Nil
  then show ?case by (simp add: tags_of_def)
next
  case (Cons s ss)
  show ?case
  proof (cases s)
    case (Request b a)
    from renderAnnotation_tags[OF assms(1), of b a stack]
    consider (err) e where "renderAnnotation h' b a stack = Inl e" "renderAnnotation h b a stack = Inl e"
      | (ok) q' q st where "renderAnnotation h' b a stack = Inr (q', st)"
          "renderAnnotation h b a stack = Inr (q, st)" "map fst q' = map fst q"
      by (auto simp: tags_of_def split: sum.splits)
    then show ?thesis
    proof cases
      case err
      with Request show ?thesis by (simp add: tags_of_def)
    next
      case ok
      from Cons.prems ok(3) have "map fst (out' @ q') = map fst (out @ q)" by simp
      from Cons.IH[OF this, of st] Request ok show ?thesis by simp
    qed
  next
    case (Emit c)
    from Cons.prems
    have "map fst (out' @ [(Chr, htmlChar c)]) = map fst (out @ [(Chr, htmlChar c)])" by simp
    from Cons.IH[OF this, of stack] Emit show ?thesis by simp
  qed
qed

lemma getHtml_state_tags:
  "\<forall>r. admitted h' r = admitted h r \<Longrightarrow>
   tags_of (getHtml_state h' data) = tags_of (getHtml_state h data)"
  by (simp add: getHtml_state_exec exec_tags)

lemma same_object_render:
  assumes "a \<noteq> b" "admitted h a" "admitted h b"
  shows "getHtml_state h [Formatted c [a], Formatted d [b]] =
           Inr ([(TagOpen a, open_text h a), (Chr, htmlChar c), (TagClose a, close_text h a),
                 (TagOpen b, open_text h b), (Chr, htmlChar d), (TagClose b, close_text h b)],
                [])"
    and "transition h (Formatted c [a]) (Formatted d [b]) out [a] =
           Inr (out @ [(TagClose a, close_text h a), (TagOpen b, open_text h b)], [b])"
  using assms
  by (simp_all add: getHtml_state_def transition_def renderAnnotation_open
        renderAnnotation_close_top)

subsection \<open>After the last unit\<close>

lemma loop_last_piece:
  "loop h left out stack data = Inr (out', stack') \<Longrightarrow> data \<noteq> [] \<Longrightarrow>
   \<exists>out0. out' = out0 @ [(Chr, htmlChar (chr_of (last data)))]"
proof (induction data arbitrary: left out stack)
  case Nil
  then show ?case by simp
next
  case (Cons right rest)
  from Cons.prems(1) obtain o1 s1 where
    l: "loop h right (o1 @ [(Chr, htmlChar (chr_of right))]) s1 rest = Inr (out', stack')"
    by (auto split: sum.splits)
  show ?case
  proof (cases "rest = []")
    case True
    with l show ?thesis by auto
  next
    case False
    from Cons.IH[OF l False] False show ?thesis by simp
  qed
qed

lemma exec_close_reversed:
  "\<forall>r\<in>set stack. admitted h r \<Longrightarrow>
   exec h (requests (map (Pair Close) (rev stack))) out stack
     = Inr (out @ map (\<lambda>a. (TagClose a, close_text h a)) (rev stack), [])"
proof (induction stack arbitrary: out rule: rev_induct)
  case Nil
  then show ?case by simp
next
  case (snoc x xs)
  then have "renderAnnotation h Close x (xs @ [x]) = Inr ([(TagClose x, close_text h x)], xs)"
    by (simp add: renderAnnotation_close_top)
  with snoc show ?case by simp
qed

lemma getHtml_state_after_loop:
  assumes "loop h (Plain []) [] [] data = Inr (out, stack)" "data \<noteq> []"
  shows "getHtml_state h data = exec h (requests (map (Pair Close) (anns (last data)))) out stack"
proof (cases "isPlain (last data)")
  case True
  then have "anns (last data) = []" by (cases "last data") auto
  with assms True show ?thesis by (simp add: getHtml_state_def)
next
  case False
  with assms show ?thesis by (simp add: getHtml_state_def render_all_exec)
qed

subsection \<open>The guard and the table\<close>

lemma registered_admitted: "registered h a \<Longrightarrow> admitted h a"
  by (auto simp: registered_def admitted_def renderers_get_def)

lemma getHtml_of_state:
  "getHtml normalize_range h data range_arg =
     (case getHtml_state h data of Inl e \<Rightarrow> Inl e | Inr (out, stack) \<Rightarrow> Inr (text_of out))"
  by (simp add: getHtml_def)

subsection \<open>Every character of the data is emitted\<close>

lemma emitted_append: "emitted (xs @ ys) = emitted xs @ emitted ys"
  by (induction xs rule: emitted.induct) auto

lemma emitted_requests: "emitted (requests rs) = []"
  by (induction rs rule: requests.induct) auto

lemma emitted_loop_steps: "emitted (loop_steps left data) = map chr_of data"
  by (induction data arbitrary: left) (simp_all add: emitted_append emitted_requests)

lemma emitted_all_steps: "emitted (all_steps data) = map chr_of data"
  by (simp add: all_steps_def trailing_steps_def emitted_append emitted_requests
        emitted_loop_steps)

lemma renderAnnotation_no_Chr:
  assumes "renderAnnotation h b a stack = Inr (ps, stack')"
  shows "filter (\<lambda>p. fst p = Chr) ps = []"
  using assms
  by (cases rule: renderAnnotation_Inr_cases) (auto simp: filter_empty_conv)

lemma exec_chr:
  "exec h ss [] stack = Inr (ps, stack') \<Longrightarrow>
   filter (\<lambda>p. fst p = Chr) ps = map (\<lambda>c. (Chr, htmlChar c)) (emitted ss)"
proof (induction ss arbitrary: stack ps)
  case Nil
  then show ?case by simp
next
  case (Cons s ss)
  show ?case
  proof (cases s)
    case (Request b a)
    have "exec h (Request b a # ss) [] stack = Inr (ps, stack')"
      using Cons.prems unfolding Request .
    then obtain q st ps' where
      r: "renderAnnotation h b a stack = Inr (q, st)" and
      e: "exec h ss [] st = Inr (ps', stack')" and ps: "ps = q @ ps'"
      by (rule exec_Request_Inr)
    from renderAnnotation_no_Chr[OF r] Cons.IH[OF e] ps Request show ?thesis by simp
  next
    case (Emit c)
    have "exec h (Emit c # ss) [] stack = Inr (ps, stack')"
      using Cons.prems unfolding Emit .
    then obtain ps' where
      e: "exec h ss [] stack = Inr (ps', stack')" and ps: "ps = (Chr, htmlChar c) # ps'"
      by (rule exec_Emit_Inr)
    from Cons.IH[OF e] ps Emit show ?thesis by simp
  qed
qed

lemma getHtml_state_chr:
  "getHtml_state h data = Inr (out, stack) \<Longrightarrow>
   filter (\<lambda>p. fst p = Chr) out = map (\<lambda>u. (Chr, htmlChar (chr_of u))) data"
  using exec_chr[of h "all_steps data" "[]" out stack]
  by (simp add: getHtml_state_exec emitted_all_steps comp_def)

subsection \<open>The example store\<close>

lemma example_admitted:
  "admitted example_heap 2" "admitted example_heap 3" "admitted example_heap 4"
  "admitted example_heap 5" "admitted example_heap 6" "\<not> admitted example_heap 7"
  by (simp_all add: admitted_def example_heap_def renderers_get_def annotationRenderers_def
        object_prototype_names_def)

lemma example_registered:
  "registered example_heap 2" "\<not> registered example_heap 6" "\<not> registered example_heap 7"
  by (simp_all add: registered_def example_heap_def annotationRenderers_def)

lemma example_text:
  "open_text example_heap 2 = ''<b>''" "close_text example_heap 2 = ''</b>''"
  "open_text example_heap 6 = ''undefined''" "close_text example_heap 6 = ''undefined''"
  by (simp_all add: open_text_def close_text_def example_heap_def renderers_get_def
        annotationRenderers_def object_prototype_names_def inherited_value_def)

lemma example_chars:
  "htmlChar ''x'' = ''x''" "htmlChar ''y'' = ''y''" "htmlChar ''d'' = ''d''"
  "htmlChar ''e'' = ''e''"
  by (simp_all add: htmlChar_def htmlCharacters_def)

section \<open>The claims\<close>

text \<open>
  C1. A close request for an annotation that is on the stack but not on top of it
  (every annotation of the stack passing the guard, as in a pass): with \<open>depth\<close> the
  first index of the annotation, the call returns the close markup of the elements
  above \<open>depth\<close> from the top of the stack downwards, then the close markup of the
  annotation, then the open markup of the same elements in stack order; the new stack
  is the old one without the element at \<open>depth\<close>, the elements above it staying in
  place. For units carrying \<open>A\<close>, then \<open>A\<close> and \<open>B\<close>, then \<open>B\<close>, the stack after the
  second unit is \<open>[A, B]\<close> and the step to the third unit appends close \<open>B\<close>,
  close \<open>A\<close>, open \<open>B\<close> and nothing else.
\<close>

theorem buried_close_reopens_covering:
  "(a \<in> set stack \<and> last stack \<noteq> a \<and> (\<forall>r\<in>set stack. admitted h r) \<longrightarrow>
      (\<exists>depth. inArray a stack = Some depth \<and> depth < length stack \<and> stack ! depth = a
         \<and> a \<notin> set (take depth stack)
         \<and> renderAnnotation h Close a stack =
             Inr (map (\<lambda>r. (TagCloseAbove r, close_text h r)) (rev (drop (Suc depth) stack))
                  @ [(TagClose a, close_text h a)]
                  @ map (\<lambda>r. (TagReopen r, open_text h r)) (drop (Suc depth) stack),
                  take depth stack @ drop (Suc depth) stack)))
   \<and> (A \<noteq> B \<and> admitted h A \<and> admitted h B \<longrightarrow>
        loop h (Plain []) [] [] [Formatted c1 [A], Formatted c2 [A, B]] =
           Inr ([(TagOpen A, open_text h A), (Chr, htmlChar c1),
                 (TagOpen B, open_text h B), (Chr, htmlChar c2)], [A, B])
      \<and> transition h (Formatted c2 [A, B]) (Formatted c3 [B]) out [A, B] =
           Inr (out @ [(TagCloseAbove B, close_text h B), (TagClose A, close_text h A),
                       (TagReopen B, open_text h B)], [B])
      \<and> getHtml normalize_range h [Formatted c1 [A], Formatted c2 [A, B], Formatted c3 [B]]
           range_arg =
           Inr (open_text h A @ htmlChar c1 @ open_text h B @ htmlChar c2
                @ close_text h B @ close_text h A @ open_text h B @ htmlChar c3
                @ close_text h B))"
proof (intro conjI impI)
  assume asm: "a \<in> set stack \<and> last stack \<noteq> a \<and> (\<forall>r\<in>set stack. admitted h r)"
  then obtain depth where d: "inArray a stack = Some depth"
    using inArray_mem by fastforce
  from asm have reg: "admitted h a" and ne: "last stack \<noteq> a" by auto
  have above: "\<forall>r\<in>set (drop (Suc depth) stack). admitted h r"
    using asm by (auto dest: in_set_dropD)
  from renderAnnotation_close_buried[OF reg d ne] above inArray_Some[OF d] d
  show "\<exists>depth. inArray a stack = Some depth \<and> depth < length stack \<and> stack ! depth = a
         \<and> a \<notin> set (take depth stack)
         \<and> renderAnnotation h Close a stack =
             Inr (map (\<lambda>r. (TagCloseAbove r, close_text h r)) (rev (drop (Suc depth) stack))
                  @ [(TagClose a, close_text h a)]
                  @ map (\<lambda>r. (TagReopen r, open_text h r)) (drop (Suc depth) stack),
                  take depth stack @ drop (Suc depth) stack)"
    by auto
next
  assume "A \<noteq> B \<and> admitted h A \<and> admitted h B"
  then show "loop h (Plain []) [] [] [Formatted c1 [A], Formatted c2 [A, B]] =
           Inr ([(TagOpen A, open_text h A), (Chr, htmlChar c1),
                 (TagOpen B, open_text h B), (Chr, htmlChar c2)], [A, B])"
    using overlap_loop[of A B h c1 c2] by blast
next
  assume "A \<noteq> B \<and> admitted h A \<and> admitted h B"
  then show "transition h (Formatted c2 [A, B]) (Formatted c3 [B]) out [A, B] =
           Inr (out @ [(TagCloseAbove B, close_text h B), (TagClose A, close_text h A),
                       (TagReopen B, open_text h B)], [B])"
    using overlap_transition[of A B h c2 c3 out] by blast
next
  assume "A \<noteq> B \<and> admitted h A \<and> admitted h B"
  then have "getHtml_state h [Formatted c1 [A], Formatted c2 [A, B], Formatted c3 [B]] =
           Inr ([(TagOpen A, open_text h A), (Chr, htmlChar c1),
                 (TagOpen B, open_text h B), (Chr, htmlChar c2),
                 (TagCloseAbove B, close_text h B), (TagClose A, close_text h A),
                 (TagReopen B, open_text h B), (Chr, htmlChar c3),
                 (TagClose B, close_text h B)], [])"
    using overlap_state[of A B h c1 c2 c3] by blast
  then show "getHtml normalize_range h [Formatted c1 [A], Formatted c2 [A, B], Formatted c3 [B]]
           range_arg =
           Inr (open_text h A @ htmlChar c1 @ open_text h B @ htmlChar c2
                @ close_text h B @ close_text h A @ open_text h B @ htmlChar c3
                @ close_text h B)"
    by (simp add: getHtml_def text_of_def)
qed


theorem buried_close_reopens_covering_witness:
  \<open>2 \<in> set [4, 2, 3, 5::nat] \<and> last [4, 2, 3, 5::nat] \<noteq> 2
   \<and> admitted example_heap 4 \<and> admitted example_heap 2
   \<and> admitted example_heap 3 \<and> admitted example_heap 5
   \<and> renderAnnotation example_heap Close 2 [4, 2, 3, 5] =
        Inr ([(TagCloseAbove 5, ''</span>''), (TagCloseAbove 3, ''</i>''),
              (TagClose 2, ''</b>''),
              (TagReopen 3, ''<i>''),
              (TagReopen 5, ''<span class="ve-ce-content-format-link" data-href="u">'')],
             [4, 3, 5])
   \<and> (2::nat) \<noteq> 3
   \<and> transition example_heap (Formatted ''y'' [2, 3]) (Formatted ''z'' [3]) [] [2, 3] =
        Inr ([(TagCloseAbove 3, ''</i>''), (TagClose 2, ''</b>''), (TagReopen 3, ''<i>'')], [3])
   \<and> getHtml id example_heap [Formatted ''x'' [2], Formatted ''y'' [2, 3], Formatted ''z'' [3]] None =
        Inr ''<b>x<i>y</i></b><i>z</i>''\<close>
proof -
  have r: "admitted example_heap 4" "admitted example_heap 2"
          "admitted example_heap 3" "admitted example_heap 5"
    by (simp_all add: admitted_def example_heap_def renderers_get_def annotationRenderers_def object_prototype_names_def)
  have t: "open_text example_heap 2 = ''<b>''" "close_text example_heap 2 = ''</b>''"
          "open_text example_heap 3 = ''<i>''" "close_text example_heap 3 = ''</i>''"
          "close_text example_heap 5 = ''</span>''"
    by (simp_all add: open_text_def close_text_def example_heap_def renderers_get_def annotationRenderers_def object_prototype_names_def)
  have t5: \<open>open_text example_heap 5 = ''<span class="ve-ce-content-format-link" data-href="u">''\<close>
    by (simp add: open_text_def example_heap_def renderers_get_def annotationRenderers_def object_prototype_names_def getprop_def)
  have c: "htmlChar ''x'' = ''x''" "htmlChar ''y'' = ''y''" "htmlChar ''z'' = ''z''"
    by (simp_all add: htmlChar_def htmlCharacters_def)
  from buried_close_reopens_covering[of 2 "[4, 2, 3, 5]" example_heap 2 3 "''x''" "''y''" "''z''"
      "[]" id None]
  show ?thesis by (simp add: r t t5 c)
qed

text \<open>
  C3. As stated the claim fails: after the last character the code does not drain the
  stack from its end; it sends a close request for each annotation of the last unit
  in the order the unit lists them. With bold \<open>2\<close> opened before italic \<open>3\<close> and
  the last unit listing them in that order, bold is buried when its close is
  requested, so italic is closed, bold is closed, italic is reopened and then closed
  again: the output ends with an additional open and close after close(B), close(A).
\<close>

theorem trailing_close_reopens_counterexample:
  "getHtml_state example_heap [Formatted ''x'' [2, 3]] =
     Inr ([(TagOpen 2, ''<b>''), (TagOpen 3, ''<i>''), (Chr, ''x''),
           (TagCloseAbove 3, ''</i>''), (TagClose 2, ''</b>''), (TagReopen 3, ''<i>''),
           (TagClose 3, ''</i>'')], [])
   \<and> getHtml id example_heap [Formatted ''x'' [2, 3]] None = Inr ''<b><i>x</i></b><i></i>''"
proof -
  have r: "admitted example_heap 2" "admitted example_heap 3"
    by (simp_all add: admitted_def example_heap_def renderers_get_def annotationRenderers_def object_prototype_names_def)
  have t: "open_text example_heap 2 = ''<b>''" "close_text example_heap 2 = ''</b>''"
          "open_text example_heap 3 = ''<i>''" "close_text example_heap 3 = ''</i>''"
    by (simp_all add: open_text_def close_text_def example_heap_def renderers_get_def annotationRenderers_def object_prototype_names_def)
  have c: "htmlChar ''x'' = ''x''"
    by (simp add: htmlChar_def htmlCharacters_def)
  have n: "(2::nat) \<noteq> 3" by simp
  have "getHtml_state example_heap [Formatted ''x'' [2, 3]] =
     Inr ([(TagOpen 2, ''<b>''), (TagOpen 3, ''<i>''), (Chr, ''x''),
           (TagCloseAbove 3, ''</i>''), (TagClose 2, ''</b>''), (TagReopen 3, ''<i>''),
           (TagClose 3, ''</i>'')], [])"
    by (simp add: getHtml_state_def transition_def renderAnnotation_open
          close_under_one[OF n r] renderAnnotation_close_top r t c)
  then show ?thesis by (simp add: getHtml_def text_of_def)
qed

text \<open>
  C3, amended. When the loop has run over a non-empty sequence, the last piece of
  the output is the character of the last unit, and what follows is the result of
  one close request per annotation of the last unit, in the order the unit lists
  them, each answered by \<^verbatim>\<open>renderAnnotation\<close> on the stack as it then is. When the
  last unit lists its annotations innermost first, that is in the reverse of the
  stack, the output ends with the close markup of every annotation of the stack from
  the innermost to the outermost and nothing else, and the stack is empty: with \<open>A\<close>
  and \<open>B\<close> open, \<open>B\<close> innermost, and the unit listing \<open>B\<close> then \<open>A\<close>, it ends with
  close \<open>B\<close>, close \<open>A\<close>.
\<close>

theorem trailing_close_requests_in_listed_order:
  assumes "data \<noteq> []" "loop h (Plain []) [] [] data = Inr (out, stack)"
  shows "(\<exists>out0. out = out0 @ [(Chr, htmlChar (chr_of (last data)))])
       \<and> getHtml_state h data
           = exec h (requests (map (Pair Close) (anns (last data)))) out stack
       \<and> (anns (last data) = rev stack \<longrightarrow>
            getHtml_state h data
              = Inr (out @ map (\<lambda>a. (TagClose a, close_text h a)) (rev stack), []))"
proof -
  have reg: "\<forall>r\<in>set stack. admitted h r"
    using assms(2) exec_admitted[of h "loop_steps (Plain []) data" "[]" "[]" out stack]
    by (simp add: loop_exec)
  have after: "getHtml_state h data
           = exec h (requests (map (Pair Close) (anns (last data)))) out stack"
    by (rule getHtml_state_after_loop[OF assms(2,1)])
  from loop_last_piece[OF assms(2,1)] after exec_close_reversed[OF reg, of out]
  show ?thesis by auto
qed

theorem trailing_close_requests_in_listed_order_witness:
  "[Formatted ''x'' [2], Formatted ''y'' [3, 2]] \<noteq> []
   \<and> loop example_heap (Plain []) [] [] [Formatted ''x'' [2], Formatted ''y'' [3, 2]] =
        Inr ([(TagOpen 2, ''<b>''), (Chr, ''x''), (TagOpen 3, ''<i>'')] @ [(Chr, ''y'')], [2, 3])
   \<and> anns (last [Formatted ''x'' [2], Formatted ''y'' [3, 2]]) = rev [2, 3]
   \<and> getHtml_state example_heap [Formatted ''x'' [2], Formatted ''y'' [3, 2]] =
        Inr ([(TagOpen 2, ''<b>''), (Chr, ''x''), (TagOpen 3, ''<i>''), (Chr, ''y''),
              (TagClose 3, ''</i>''), (TagClose 2, ''</b>'')], [])"
proof -
  have r: "admitted example_heap 2" "admitted example_heap 3"
    by (simp_all add: admitted_def example_heap_def renderers_get_def annotationRenderers_def object_prototype_names_def)
  have t: "open_text example_heap 2 = ''<b>''" "close_text example_heap 2 = ''</b>''"
          "open_text example_heap 3 = ''<i>''" "close_text example_heap 3 = ''</i>''"
    by (simp_all add: open_text_def close_text_def example_heap_def renderers_get_def annotationRenderers_def object_prototype_names_def)
  have c: "htmlChar ''x'' = ''x''" "htmlChar ''y'' = ''y''"
    by (simp_all add: htmlChar_def htmlCharacters_def)
  have l: "loop example_heap (Plain []) [] [] [Formatted ''x'' [2], Formatted ''y'' [3, 2]] =
        Inr ([(TagOpen 2, ''<b>''), (Chr, ''x''), (TagOpen 3, ''<i>''), (Chr, ''y'')], [2, 3])"
    by (simp add: transition_def renderAnnotation_open r t c)
  have ne: "[Formatted ''x'' [2], Formatted ''y'' [3, 2]] \<noteq> []" by simp
  have a: "anns (last [Formatted ''x'' [2], Formatted ''y'' [3, 2]]) = rev [2, 3]" by simp
  from trailing_close_requests_in_listed_order[OF ne l] a
  have "getHtml_state example_heap [Formatted ''x'' [2], Formatted ''y'' [3, 2]]
          = Inr ([(TagOpen 2, ''<b>''), (Chr, ''x''), (TagOpen 3, ''<i>''), (Chr, ''y'')]
                 @ map (\<lambda>a. (TagClose a, close_text example_heap a)) (rev [2, 3]), [])"
    by blast
  then have g: "getHtml_state example_heap [Formatted ''x'' [2], Formatted ''y'' [3, 2]] =
        Inr ([(TagOpen 2, ''<b>''), (Chr, ''x''), (TagOpen 3, ''<i>''), (Chr, ''y''),
              (TagClose 3, ''</i>''), (TagClose 2, ''</b>'')], [])"
    by (simp add: t)
  have l': "loop example_heap (Plain []) [] [] [Formatted ''x'' [2], Formatted ''y'' [3, 2]] =
        Inr ([(TagOpen 2, ''<b>''), (Chr, ''x''), (TagOpen 3, ''<i>'')] @ [(Chr, ''y'')], [2, 3])"
    using l by simp
  from ne l' a g show ?thesis by blast
qed

text \<open>
  C4. As stated the claim fails in its clause that annotations present in both units
  produce no markup at the transition: when an annotation that ends is buried under
  one that goes on, the one that goes on is closed and reopened there. With bold \<open>2\<close>
  and italic \<open>3\<close>, italic is on both units and the step still appends its close and
  its open markup.
\<close>

theorem shared_annotation_markup_counterexample:
  "3 \<in> set (anns (Formatted ''y'' [2, 3])) \<and> 3 \<in> set (anns (Formatted ''z'' [3]))
   \<and> loop example_heap (Plain []) [] [] [Formatted ''x'' [2], Formatted ''y'' [2, 3]] =
        Inr ([(TagOpen 2, ''<b>''), (Chr, ''x''), (TagOpen 3, ''<i>''), (Chr, ''y'')], [2, 3])
   \<and> transition example_heap (Formatted ''y'' [2, 3]) (Formatted ''z'' [3]) [] [2, 3] =
        Inr ([(TagCloseAbove 3, ''</i>''), (TagClose 2, ''</b>''), (TagReopen 3, ''<i>'')], [3])"
proof -
  have r: "admitted example_heap 2" "admitted example_heap 3"
    by (simp_all add: admitted_def example_heap_def renderers_get_def annotationRenderers_def object_prototype_names_def)
  have t: "open_text example_heap 2 = ''<b>''" "close_text example_heap 2 = ''</b>''"
          "open_text example_heap 3 = ''<i>''" "close_text example_heap 3 = ''</i>''"
    by (simp_all add: open_text_def close_text_def example_heap_def renderers_get_def annotationRenderers_def object_prototype_names_def)
  have c: "htmlChar ''x'' = ''x''" "htmlChar ''y'' = ''y''"
    by (simp_all add: htmlChar_def htmlCharacters_def)
  have n: "(2::nat) \<noteq> 3" by simp
  from overlap_loop[OF n r, of "''x''" "''y''"] overlap_transition[OF n r, of "''y''" "''z''" "[]"]
  show ?thesis by (simp add: t c)
qed

text \<open>
  C4, amended. At every pair of neighbouring units the loop hands
  \<^verbatim>\<open>renderAnnotation\<close> a close request for each annotation of the previous unit that is
  not (by identity) among those of the current unit, in the previous unit's order,
  and then an open request for each annotation of the current unit that is not among
  those of the previous unit, in the current unit's order, before it appends the
  character. A plain unit counts as a unit without annotations, and an annotation on
  both units gets no request.
\<close>

theorem transition_issues_difference_requests:
  "transition h prev cur out stack = exec h (requests (diff_requests prev cur)) out stack
   \<and> loop h prev out stack (cur # rest) =
       (case exec h (requests (diff_requests prev cur)) out stack of
          Inl e \<Rightarrow> Inl e
        | Inr (out', stack') \<Rightarrow> loop h cur (out' @ [(Chr, htmlChar (chr_of cur))]) stack' rest)
   \<and> diff_requests (Plain c) cur = map (Pair Open) (anns cur)
   \<and> diff_requests prev (Plain c) = map (Pair Close) (anns prev)
   \<and> (a \<in> set (anns prev) \<and> a \<in> set (anns cur) \<longrightarrow>
        (Close, a) \<notin> set (diff_requests prev cur) \<and> (Open, a) \<notin> set (diff_requests prev cur))"
proof -
  have "transition h prev cur out stack = exec h (requests (diff_requests prev cur)) out stack"
    by (rule transition_exec)
  moreover have "diff_requests (Plain c) cur = map (Pair Open) (anns cur)"
    and "diff_requests prev (Plain c) = map (Pair Close) (anns prev)"
    by (simp_all add: diff_requests_def)
  moreover have "a \<in> set (anns prev) \<and> a \<in> set (anns cur) \<longrightarrow>
        (Close, a) \<notin> set (diff_requests prev cur) \<and> (Open, a) \<notin> set (diff_requests prev cur)"
    by (auto simp: diff_requests_def)
  ultimately show ?thesis by (simp add: transition_exec)
qed

theorem transition_issues_difference_requests_witness:
  "3 \<in> set (anns (Formatted ''y'' [2, 3, 7])) \<and> 3 \<in> set (anns (Formatted ''z'' [5, 3]))
   \<and> diff_requests (Formatted ''y'' [2, 3, 7]) (Formatted ''z'' [5, 3])
       = [(Close, 2), (Close, 7), (Open, 5)]
   \<and> (Close, 3) \<notin> set (diff_requests (Formatted ''y'' [2, 3, 7]) (Formatted ''z'' [5, 3]))
   \<and> (Open, 3) \<notin> set (diff_requests (Formatted ''y'' [2, 3, 7]) (Formatted ''z'' [5, 3]))
   \<and> transition example_heap (Formatted ''y'' [2, 3, 7]) (Formatted ''z'' [5, 3]) [] [2, 3]
       = exec example_heap [Request Close 2, Request Close 7, Request Open 5] [] [2, 3]"
proof -
  have d: "diff_requests (Formatted ''y'' [2, 3, 7]) (Formatted ''z'' [5, 3])
       = [(Close, 2), (Close, 7), (Open, 5)]"
    by (simp add: diff_requests_def)
  from transition_issues_difference_requests[of example_heap "Formatted ''y'' [2, 3, 7]"
      "Formatted ''z'' [5, 3]" "[]" "[2, 3]" "[]" "[]" 3]
  show ?thesis by (simp add: d)
qed

text \<open>
  C5. Annotations are told apart by identity. Let \<open>a\<close> and \<open>b\<close> be two different
  references whose objects have the same type and the same payload, the type passing
  the guard. On neighbouring units they are not merged: \<open>a\<close> is closed and \<open>b\<close> is
  opened between the two characters. A close request for \<open>a\<close> is not met by \<open>b\<close> on
  the stack: with \<open>a\<close> absent the call throws however many equal-looking annotations
  the stack holds, and with \<open>b\<close> on top of \<open>a\<close> it is \<open>a\<close> that leaves the stack, \<open>b\<close>
  being closed and reopened around it. More generally the tags emitted and the stack
  depend on the store only through which references pass the guard, never on a
  comparison of types or payloads.
\<close>

theorem annotations_compared_by_identity:
  assumes "a \<noteq> b" "h a = h b" "admitted h a"
  shows "transition h (Formatted c [a]) (Formatted d [b]) out [a] =
           Inr (out @ [(TagClose a, close_text h a), (TagOpen b, open_text h b)], [b])
       \<and> getHtml_state h [Formatted c [a], Formatted d [b]] =
           Inr ([(TagOpen a, open_text h a), (Chr, htmlChar c), (TagClose a, close_text h a),
                 (TagOpen b, open_text h b), (Chr, htmlChar d), (TagClose b, close_text h b)],
                [])
       \<and> (a \<notin> set stack \<longrightarrow> renderAnnotation h Close a stack = Inl InvalidStack)
       \<and> renderAnnotation h Close a (replicate n b) = Inl InvalidStack
       \<and> renderAnnotation h Close a [a, b] =
           Inr ([(TagCloseAbove b, close_text h b), (TagClose a, close_text h a),
                 (TagReopen b, open_text h b)], [b])
       \<and> ((\<forall>r. admitted h' r = admitted h r) \<longrightarrow>
            tags_of (getHtml_state h' data) = tags_of (getHtml_state h data))"
proof -
  from assms have regb: "admitted h b" by (simp add: admitted_def)
  have "a \<notin> set (replicate n b)" using assms(1) by auto
  then have "renderAnnotation h Close a (replicate n b) = Inl InvalidStack"
    using assms(3) by (rule renderAnnotation_close_missing[rotated])
  with same_object_render[OF assms(1,3) regb] close_under_one[OF assms(1,3) regb]
    renderAnnotation_close_missing[OF assms(3), of stack] getHtml_state_tags[of h' h data]
  show ?thesis by blast
qed

theorem annotations_compared_by_identity_witness:
  "(2::nat) \<noteq> 4 \<and> example_heap 2 = example_heap 4 \<and> admitted example_heap 2
   \<and> getHtml_state example_heap [Formatted ''x'' [2], Formatted ''y'' [4]] =
        Inr ([(TagOpen 2, ''<b>''), (Chr, ''x''), (TagClose 2, ''</b>''),
              (TagOpen 4, ''<b>''), (Chr, ''y''), (TagClose 4, ''</b>'')], [])
   \<and> 2 \<notin> set [4, 3, 4::nat]
   \<and> renderAnnotation example_heap Close 2 [4, 3, 4] = Inl InvalidStack
   \<and> renderAnnotation example_heap Close 2 [2, 4] =
        Inr ([(TagCloseAbove 4, ''</b>''), (TagClose 2, ''</b>''), (TagReopen 4, ''<b>'')], [4])"
proof -
  have r: "admitted example_heap 2"
    by (simp add: admitted_def example_heap_def renderers_get_def annotationRenderers_def object_prototype_names_def)
  have e: "example_heap 2 = example_heap 4" by (simp add: example_heap_def)
  have t: "open_text example_heap 2 = ''<b>''" "close_text example_heap 2 = ''</b>''"
          "open_text example_heap 4 = ''<b>''" "close_text example_heap 4 = ''</b>''"
    by (simp_all add: open_text_def close_text_def example_heap_def renderers_get_def annotationRenderers_def object_prototype_names_def)
  have c: "htmlChar ''x'' = ''x''" "htmlChar ''y'' = ''y''"
    by (simp_all add: htmlChar_def htmlCharacters_def)
  from annotations_compared_by_identity[of 2 4 example_heap "''x''" "''y''" "[]" "[4, 3, 4]" 0
      example_heap "[]"] r e
  show ?thesis by (simp add: t c)
qed

text \<open>
  C7. As stated the claim fails on inputs in which a unit lists the same annotation
  twice. The first unit below opens bold \<open>2\<close> twice; the second unit still carries
  it, so nothing is closed; the plain third unit closes it once. The call returns
  with \<open>2\<close> left on the stack, two opens against one close, and tags that are not
  balanced.
\<close>

theorem repeated_annotation_counterexample:
  "getHtml_state example_heap [Formatted ''c'' [2, 2], Formatted ''d'' [2], Plain ''e''] =
     Inr ([(TagOpen 2, ''<b>''), (TagOpen 2, ''<b>''), (Chr, ''c''), (Chr, ''d''),
           (TagClose 2, ''</b>''), (Chr, ''e'')], [2])
   \<and> getHtml id example_heap [Formatted ''c'' [2, 2], Formatted ''d'' [2], Plain ''e''] None
       = Inr ''<b><b>cd</b>e''
   \<and> opens 2 [TagOpen 2, TagOpen 2, Chr, Chr, TagClose 2, Chr] = 2
   \<and> closes 2 [TagOpen 2, TagOpen 2, Chr, Chr, TagClose 2, Chr] = 1
   \<and> \<not> properly_nested [TagOpen 2, TagOpen 2, Chr, Chr, TagClose 2, Chr]"
proof -
  have r: "admitted example_heap 2"
    by (simp add: admitted_def example_heap_def renderers_get_def annotationRenderers_def object_prototype_names_def)
  have t: "open_text example_heap 2 = ''<b>''" "close_text example_heap 2 = ''</b>''"
    by (simp_all add: open_text_def close_text_def example_heap_def renderers_get_def annotationRenderers_def object_prototype_names_def)
  have c: "htmlChar ''c'' = ''c''" "htmlChar ''d'' = ''d''" "htmlChar ''e'' = ''e''"
    by (simp_all add: htmlChar_def htmlCharacters_def)
  have g: "getHtml_state example_heap [Formatted ''c'' [2, 2], Formatted ''d'' [2], Plain ''e''] =
     Inr ([(TagOpen 2, ''<b>''), (TagOpen 2, ''<b>''), (Chr, ''c''), (Chr, ''d''),
           (TagClose 2, ''</b>''), (Chr, ''e'')], [2])"
    by (simp add: getHtml_state_def transition_def renderAnnotation_open
          renderAnnotation_close_top r t c)
  then have "getHtml id example_heap [Formatted ''c'' [2, 2], Formatted ''d'' [2], Plain ''e''] None
       = Inr ''<b><b>cd</b>e''"
    by (simp add: getHtml_def text_of_def)
  with g show ?thesis by (simp add: opens_def closes_def properly_nested_def)
qed

text \<open>
  C7, amended. Whenever the call returns, the emitted tags are nested exactly as the
  stack records: read as brackets from the empty stack they leave open the stack at
  return, and for every annotation the opens exceed the closes, and the pushes the
  removals, by the number of times it is still on that stack. When no unit lists an
  annotation twice the call does return, the stack at return is empty, the tags form a
  properly nested bracket structure, and for every annotation the opens equal the
  closes and the pushes equal the removals.
\<close>

theorem balanced_tags_without_repetition:
  "(getHtml_state h data = Inr (out, stack) \<longrightarrow>
      nest [] (map fst out) = Some stack
      \<and> opens a (map fst out) = closes a (map fst out) + count_list stack a
      \<and> pushes a (map fst out) = pops a (map fst out) + count_list stack a)
   \<and> ((\<forall>u\<in>set data. distinct (anns u)) \<longrightarrow>
        (\<exists>out'. getHtml_state h data = Inr (out', [])
           \<and> properly_nested (map fst out')
           \<and> (\<forall>r. opens r (map fst out') = closes r (map fst out'))
           \<and> (\<forall>r. pushes r (map fst out') = pops r (map fst out'))))"
proof -
  have general: "nest [] (map fst ps) = Some st
      \<and> opens r (map fst ps) = closes r (map fst ps) + count_list st r
      \<and> pushes r (map fst ps) = pops r (map fst ps) + count_list st r"
    if "getHtml_state h data = Inr (ps, st)" for ps st r
  proof -
    from that have e: "exec h (all_steps data) [] [] = Inr (ps, st)"
      by (simp add: getHtml_state_exec)
    from exec_nest[OF e] have n: "nest [] (map fst ps) = Some st" .
    from nest_counts[OF n, of r] exec_pushes[OF e, of r] n show ?thesis by simp
  qed
  have "\<exists>out'. getHtml_state h data = Inr (out', [])
           \<and> properly_nested (map fst out')
           \<and> (\<forall>r. opens r (map fst out') = closes r (map fst out'))
           \<and> (\<forall>r. pushes r (map fst out') = pops r (map fst out'))"
    if "\<forall>u\<in>set data. distinct (anns u)"
  proof -
    from getHtml_state_distinct[OF that] obtain ps where
      g: "getHtml_state h data = Inr (ps, [])" by blast
    from general[OF g] have "properly_nested (map fst ps)"
      and "\<forall>r. opens r (map fst ps) = closes r (map fst ps)"
      and "\<forall>r. pushes r (map fst ps) = pops r (map fst ps)"
      by (simp_all add: properly_nested_def)
    with g show ?thesis by blast
  qed
  with general[of out stack a] show ?thesis by blast
qed

theorem balanced_tags_without_repetition_witness:
  "distinct (anns (Formatted ''x'' [2])) \<and> distinct (anns (Formatted ''y'' [2, 3]))
   \<and> distinct (anns (Formatted ''z'' [3]))
   \<and> getHtml_state example_heap [Formatted ''x'' [2], Formatted ''y'' [2, 3], Formatted ''z'' [3]] =
        Inr ([(TagOpen 2, ''<b>''), (Chr, ''x''), (TagOpen 3, ''<i>''), (Chr, ''y''),
              (TagCloseAbove 3, ''</i>''), (TagClose 2, ''</b>''), (TagReopen 3, ''<i>''),
              (Chr, ''z''), (TagClose 3, ''</i>'')], [])
   \<and> properly_nested [TagOpen 2, Chr, TagOpen 3, Chr, TagCloseAbove 3, TagClose 2, TagReopen 3,
        Chr, TagClose 3]
   \<and> opens 3 [TagOpen 2, Chr, TagOpen 3, Chr, TagCloseAbove 3, TagClose 2, TagReopen 3,
        Chr, TagClose 3]
      = closes 3 [TagOpen 2, Chr, TagOpen 3, Chr, TagCloseAbove 3, TagClose 2, TagReopen 3,
        Chr, TagClose 3]
   \<and> pushes 3 [TagOpen 2, Chr, TagOpen 3, Chr, TagCloseAbove 3, TagClose 2, TagReopen 3,
        Chr, TagClose 3]
      = pops 3 [TagOpen 2, Chr, TagOpen 3, Chr, TagCloseAbove 3, TagClose 2, TagReopen 3,
        Chr, TagClose 3]"
proof -
  have r: "admitted example_heap 2" "admitted example_heap 3"
    by (simp_all add: admitted_def example_heap_def renderers_get_def annotationRenderers_def object_prototype_names_def)
  have t: "open_text example_heap 2 = ''<b>''" "close_text example_heap 2 = ''</b>''"
          "open_text example_heap 3 = ''<i>''" "close_text example_heap 3 = ''</i>''"
    by (simp_all add: open_text_def close_text_def example_heap_def renderers_get_def annotationRenderers_def object_prototype_names_def)
  have c: "htmlChar ''x'' = ''x''" "htmlChar ''y'' = ''y''" "htmlChar ''z'' = ''z''"
    by (simp_all add: htmlChar_def htmlCharacters_def)
  have n: "(2::nat) \<noteq> 3" by simp
  have d: "\<forall>u\<in>set [Formatted ''x'' [2], Formatted ''y'' [2, 3], Formatted ''z'' [3]].
             distinct (anns u)"
    by simp
  have g: "getHtml_state example_heap [Formatted ''x'' [2], Formatted ''y'' [2, 3], Formatted ''z'' [3]] =
        Inr ([(TagOpen 2, ''<b>''), (Chr, ''x''), (TagOpen 3, ''<i>''), (Chr, ''y''),
              (TagCloseAbove 3, ''</i>''), (TagClose 2, ''</b>''), (TagReopen 3, ''<i>''),
              (Chr, ''z''), (TagClose 3, ''</i>'')], [])"
    using overlap_state[OF n r, of "''x''" "''y''" "''z''"] by (simp add: t c)
  from balanced_tags_without_repetition[of example_heap
      "[Formatted ''x'' [2], Formatted ''y'' [2, 3], Formatted ''z'' [3]]" _ "[]" 3] d
  have "\<exists>out'. getHtml_state example_heap
            [Formatted ''x'' [2], Formatted ''y'' [2, 3], Formatted ''z'' [3]] = Inr (out', [])
           \<and> properly_nested (map fst out')
           \<and> (\<forall>r. opens r (map fst out') = closes r (map fst out'))
           \<and> (\<forall>r. pushes r (map fst out') = pops r (map fst out'))"
    by blast
  then have "properly_nested [TagOpen 2, Chr, TagOpen 3, Chr, TagCloseAbove 3, TagClose 2,
        TagReopen 3, Chr, TagClose 3]"
    and "opens 3 [TagOpen 2, Chr, TagOpen 3, Chr, TagCloseAbove 3, TagClose 2, TagReopen 3,
        Chr, TagClose 3]
      = closes 3 [TagOpen 2, Chr, TagOpen 3, Chr, TagCloseAbove 3, TagClose 2, TagReopen 3,
        Chr, TagClose 3]"
    and "pushes 3 [TagOpen 2, Chr, TagOpen 3, Chr, TagCloseAbove 3, TagClose 2, TagReopen 3,
        Chr, TagClose 3]
      = pops 3 [TagOpen 2, Chr, TagOpen 3, Chr, TagCloseAbove 3, TagClose 2, TagReopen 3,
        Chr, TagClose 3]"
    unfolding g by auto
  with g show ?thesis by simp
qed

text \<open>
  C8. When every unit is a plain character, the pass appends nothing but characters:
  the result is the concatenation, in order, of the \<^verbatim>\<open>htmlCharacters\<close> entry of each
  character that has one and of the character itself otherwise, and the stack stays
  empty. The empty sequence gives the empty string.
\<close>

theorem plain_input_is_escaped_text:
  "getHtml_state h (map Plain cs) = Inr (map (\<lambda>c. (Chr, htmlChar c)) cs, [])
   \<and> getHtml normalize_range h (map Plain cs) range_arg
       = Inr (concat (map (\<lambda>c. case htmlCharacters c of Some s \<Rightarrow> s | None \<Rightarrow> c) cs))
   \<and> getHtml normalize_range h [] range_arg = Inr []"
proof -
  have st: "getHtml_state h (map Plain cs) = Inr (map (\<lambda>c. (Chr, htmlChar c)) cs, [])"
  proof -
    have l: "loop h (Plain []) [] [] (map Plain cs) = Inr (map (\<lambda>c. (Chr, htmlChar c)) cs, [])"
      by (simp add: loop_plain)
    have "cs \<noteq> [] \<Longrightarrow> isPlain (last (map Plain cs))"
      by (simp add: last_map)
    then show ?thesis
      unfolding getHtml_state_def l by (cases "cs = []") auto
  qed
  have tx: "text_of (map (\<lambda>c. (Chr, htmlChar c)) cs)
              = concat (map (\<lambda>c. case htmlCharacters c of Some s \<Rightarrow> s | None \<Rightarrow> c) cs)"
    by (simp add: text_of_def comp_def htmlChar_def)
  have "getHtml normalize_range h [] range_arg = Inr []"
    by (simp add: getHtml_def getHtml_state_def text_of_def)
  with st tx show ?thesis by (simp add: getHtml_def)
qed

theorem plain_input_is_escaped_text_witness:
  \<open>getHtml id example_heap (map Plain [''a'', ''<'', ''&'', [CHR 0x0A]]) None
     = Inr ''a&lt;&amp;<span class="ve-ce-content-whitespace">&#182;</span>''\<close>
  using plain_input_is_escaped_text[of example_heap "[''a'', ''<'', ''&'', [CHR 0x0A]]" id None]
  by (simp add: htmlCharacters_def)

text \<open>
  C9. The range argument has no influence on the result, and the result is the
  rendering of all of the node's data. With a range and without one the call returns
  the same; what it returns is, whatever the range argument, the text of the pass
  over the steps of the whole data; and when it returns a string, that string is the
  concatenation of pieces among which the character pieces are exactly the escaped
  characters of all units of the data, in their order.
\<close>

theorem range_argument_is_ignored:
  "getHtml normalize_range h data (Some r) = getHtml normalize_range h data None
   \<and> getHtml normalize_range h data range_arg =
       (case exec h (all_steps data) [] [] of
          Inl e \<Rightarrow> Inl e
        | Inr (out, stack) \<Rightarrow> Inr (text_of out))
   \<and> (getHtml normalize_range h data range_arg = Inr s \<longrightarrow>
        (\<exists>out stack. getHtml_state h data = Inr (out, stack) \<and> s = text_of out
           \<and> filter (\<lambda>p. fst p = Chr) out = map (\<lambda>u. (Chr, htmlChar (chr_of u))) data))"
proof -
  have one: "getHtml normalize_range h data (Some r) = getHtml normalize_range h data None"
    by (simp add: getHtml_def)
  have two: "getHtml normalize_range h data range_arg =
       (case exec h (all_steps data) [] [] of
          Inl e \<Rightarrow> Inl e
        | Inr (out, stack) \<Rightarrow> Inr (text_of out))"
    by (simp add: getHtml_of_state getHtml_state_exec)
  have three: "\<exists>out stack. getHtml_state h data = Inr (out, stack) \<and> s = text_of out
           \<and> filter (\<lambda>p. fst p = Chr) out = map (\<lambda>u. (Chr, htmlChar (chr_of u))) data"
    if "getHtml normalize_range h data range_arg = Inr s"
  proof -
    from that obtain out stack where g: "getHtml_state h data = Inr (out, stack)"
      and s: "s = text_of out"
      by (auto simp: getHtml_of_state split: sum.splits)
    from getHtml_state_chr[OF g] g s show ?thesis by blast
  qed
  from one two three show ?thesis by blast
qed

theorem range_argument_is_ignored_witness:
  "getHtml (\<lambda>r. r\<lparr>range_start := 1\<rparr>) example_heap
      [Plain ''a'', Formatted ''<'' [2], Plain ''c'']
      (Some \<lparr>range_start = 2, range_end = Some 1\<rparr>) = Inr ''a<b>&lt;</b>c''
   \<and> getHtml_state example_heap [Plain ''a'', Formatted ''<'' [2], Plain ''c''] =
        Inr ([(Chr, ''a''), (TagOpen 2, ''<b>''), (Chr, ''&lt;''), (TagClose 2, ''</b>''),
              (Chr, ''c'')], [])
   \<and> filter (\<lambda>p. fst p = Chr)
        [(Chr, ''a''), (TagOpen 2, ''<b>''), (Chr, ''&lt;''), (TagClose 2, ''</b>''), (Chr, ''c'')]
       = map (\<lambda>u. (Chr, htmlChar (chr_of u))) [Plain ''a'', Formatted ''<'' [2], Plain ''c'']"
proof -
  have r: "admitted example_heap 2"
    by (simp add: admitted_def example_heap_def renderers_get_def annotationRenderers_def)
  have t: "open_text example_heap 2 = ''<b>''" "close_text example_heap 2 = ''</b>''"
    by (simp_all add: open_text_def close_text_def example_heap_def renderers_get_def
          annotationRenderers_def)
  have c: "htmlChar ''a'' = ''a''" "htmlChar ''<'' = ''&lt;''" "htmlChar ''c'' = ''c''"
    by (simp_all add: htmlChar_def htmlCharacters_def)
  have g: "getHtml_state example_heap [Plain ''a'', Formatted ''<'' [2], Plain ''c''] =
        Inr ([(Chr, ''a''), (TagOpen 2, ''<b>''), (Chr, ''&lt;''), (TagClose 2, ''</b>''),
              (Chr, ''c'')], [])"
    by (simp add: getHtml_state_def transition_def renderAnnotation_open
          renderAnnotation_close_top r t c)
  have x: "getHtml (\<lambda>r. r\<lparr>range_start := 1\<rparr>) example_heap
      [Plain ''a'', Formatted ''<'' [2], Plain ''c''] None = Inr ''a<b>&lt;</b>c''"
    by (simp add: getHtml_def g text_of_def)
  from range_argument_is_ignored[of "\<lambda>r. r\<lparr>range_start := 1\<rparr>" example_heap
      "[Plain ''a'', Formatted ''<'' [2], Plain ''c'']" "\<lparr>range_start = 2, range_end = Some 1\<rparr>"
      None "''a<b>&lt;</b>c''"] x
  have "getHtml (\<lambda>r. r\<lparr>range_start := 1\<rparr>) example_heap
      [Plain ''a'', Formatted ''<'' [2], Plain ''c'']
      (Some \<lparr>range_start = 2, range_end = Some 1\<rparr>) = Inr ''a<b>&lt;</b>c''"
    by simp
  with g show ?thesis by (simp add: c)
qed

text \<open>
  C2. As stated the claim fails for annotations that the guard \<^verbatim>\<open>type in renderers\<close>
  rejects: the guard comes first, so a close request for such an annotation returns
  the empty string whether or not the annotation is on the stack, and the pass goes on.
\<close>

theorem close_of_absent_unregistered_counterexample:
  "7 \<notin> set ([] :: ref list)
   \<and> renderAnnotation example_heap Close 7 [] = Inr ([], [])
   \<and> all_steps [Formatted ''x'' [7], Plain ''d'']
       = [Request Open 7, Emit ''x'', Request Close 7, Emit ''d'']
   \<and> getHtml id example_heap [Formatted ''x'' [7], Plain ''d''] None = Inr ''xd''"
proof -
  have "renderAnnotation example_heap Close 7 [] = Inr ([], [])"
    by (simp add: renderAnnotation_not_admitted example_admitted)
  moreover have "all_steps [Formatted ''x'' [7], Plain ''d'']
       = [Request Open 7, Emit ''x'', Request Close 7, Emit ''d'']"
    by (simp add: all_steps_def trailing_steps_def diff_requests_def)
  moreover have "getHtml id example_heap [Formatted ''x'' [7], Plain ''d''] None = Inr ''xd''"
    by (simp add: getHtml_def getHtml_state_def transition_def renderAnnotation_not_admitted
          example_admitted example_chars text_of_def)
  ultimately show ?thesis by simp
qed

text \<open>
  C2, amended. A close request for an annotation that passes the guard
  \<^verbatim>\<open>type in renderers\<close>, as every annotation whose type is a key of
  \<^verbatim>\<open>annotationRenderers\<close> does, and that is nowhere on the stack makes
  \<^verbatim>\<open>renderAnnotation\<close> throw the invalid stack error. Inside a pass the error ends the
  call: when the steps of the pass reach such a request with the stack in that state,
  \<^verbatim>\<open>getHtml\<close> returns the error and no string. A close request for an annotation that
  fails the guard is ignored silently, on any stack, whether the stack holds the
  annotation or not: the call returns the empty string and the stack as it was, and a
  pass gives what it gives on the data without that annotation.
\<close>

theorem close_of_absent_aborts_under_guard:
  "(admitted h a \<and> a \<notin> set stack \<longrightarrow>
      renderAnnotation h Close a stack = Inl InvalidStack
      \<and> (all_steps data = pre @ Request Close a # post
            \<and> exec h pre [] [] = Inr (out, stack)
          \<longrightarrow> getHtml_state h data = Inl InvalidStack
              \<and> getHtml normalize_range h data range_arg = Inl InvalidStack))
   \<and> (registered h a \<longrightarrow> admitted h a)
   \<and> (\<not> admitted h a \<longrightarrow>
        renderAnnotation h Close a stack = Inr ([], stack)
        \<and> renderAnnotation h Close a (stack @ a # upper) = Inr ([], stack @ a # upper)
        \<and> getHtml_state h data = getHtml_state h (map (without a) data)
        \<and> getHtml normalize_range h data range_arg
            = getHtml normalize_range h (map (without a) data) range_arg)"
proof (intro conjI impI)
  assume asm: "admitted h a \<and> a \<notin> set stack"
  then show r: "renderAnnotation h Close a stack = Inl InvalidStack"
    by (simp add: renderAnnotation_close_missing)
  assume steps: "all_steps data = pre @ Request Close a # post
            \<and> exec h pre [] [] = Inr (out, stack)"
  then have e: "exec h pre [] [] = Inr (out, stack)" by simp
  from exec_abort[OF e r, of post] steps
  show g: "getHtml_state h data = Inl InvalidStack" by (simp add: getHtml_state_exec)
  then show "getHtml normalize_range h data range_arg = Inl InvalidStack"
    by (simp add: getHtml_def)
next
  assume "registered h a"
  then show "admitted h a" by (rule registered_admitted)
next
  assume n: "\<not> admitted h a"
  then show "renderAnnotation h Close a stack = Inr ([], stack)"
    and "renderAnnotation h Close a (stack @ a # upper) = Inr ([], stack @ a # upper)"
    by (simp_all add: renderAnnotation_not_admitted)
  from n show "getHtml_state h data = getHtml_state h (map (without a) data)"
    by (simp add: getHtml_state_without)
  with n show "getHtml normalize_range h data range_arg
            = getHtml normalize_range h (map (without a) data) range_arg"
    by (simp add: getHtml_def)
qed

theorem close_of_absent_aborts_under_guard_witness:
  "admitted example_heap 2 \<and> 2 \<notin> set ([] :: ref list)
   \<and> renderAnnotation example_heap Close 2 [] = Inl InvalidStack
   \<and> all_steps [Formatted ''x'' [2], Formatted ''y'' [2, 2], Plain ''e'']
       = [Request Open 2, Emit ''x'', Emit ''y'', Request Close 2] @ Request Close 2 # [Emit ''e'']
   \<and> exec example_heap [Request Open 2, Emit ''x'', Emit ''y'', Request Close 2] [] []
       = Inr ([(TagOpen 2, ''<b>''), (Chr, ''x''), (Chr, ''y''), (TagClose 2, ''</b>'')], [])
   \<and> getHtml id example_heap [Formatted ''x'' [2], Formatted ''y'' [2, 2], Plain ''e''] None
       = Inl InvalidStack
   \<and> registered example_heap 2
   \<and> \<not> admitted example_heap 7
   \<and> renderAnnotation example_heap Close 7 [2] = Inr ([], [2])
   \<and> renderAnnotation example_heap Close 7 ([2] @ 7 # [3]) = Inr ([], [2] @ 7 # [3])"
proof -
  have s: "all_steps [Formatted ''x'' [2], Formatted ''y'' [2, 2], Plain ''e'']
       = [Request Open 2, Emit ''x'', Emit ''y'', Request Close 2] @ Request Close 2 # [Emit ''e'']"
    by (simp add: all_steps_def trailing_steps_def diff_requests_def)
  have e: "exec example_heap [Request Open 2, Emit ''x'', Emit ''y'', Request Close 2] [] []
       = Inr ([(TagOpen 2, ''<b>''), (Chr, ''x''), (Chr, ''y''), (TagClose 2, ''</b>'')], [])"
    by (simp add: renderAnnotation_open renderAnnotation_close_top example_admitted
          example_text example_chars)
  have n: "2 \<notin> set ([] :: ref list)" by simp
  note th1 = close_of_absent_aborts_under_guard[of example_heap 2 "[]"
      "[Formatted ''x'' [2], Formatted ''y'' [2, 2], Plain ''e'']"
      "[Request Open 2, Emit ''x'', Emit ''y'', Request Close 2]" "[Emit ''e'']"
      "[(TagOpen 2, ''<b>''), (Chr, ''x''), (Chr, ''y''), (TagClose 2, ''</b>'')]" id None "[]"]
  note th2 = close_of_absent_aborts_under_guard[of example_heap 7 "[2]" "[]" "[]" "[]" "[]"
      id None "[3]"]
  from th1 example_admitted(1) n s e
  have a: "renderAnnotation example_heap Close 2 [] = Inl InvalidStack"
    and b: "getHtml id example_heap [Formatted ''x'' [2], Formatted ''y'' [2, 2], Plain ''e''] None
       = Inl InvalidStack"
    by blast+
  from th2 example_admitted(6)
  have c: "renderAnnotation example_heap Close 7 [2] = Inr ([], [2])"
    and d: "renderAnnotation example_heap Close 7 ([2] @ 7 # [3]) = Inr ([], [2] @ 7 # [3])"
    by blast+
  from example_admitted(1,6) example_registered(1) n s e a b c d show ?thesis by blast
qed

text \<open>
  C6. An annotation whose type is no key of \<^verbatim>\<open>annotationRenderers\<close> is meant to be a
  no-op. The guard of \<^verbatim>\<open>renderAnnotation\<close> is \<^verbatim>\<open>type in renderers\<close>, which also holds
  for the property names the table inherits from \<^verbatim>\<open>Object.prototype\<close>. For the type
  \<^verbatim>\<open>toString\<close>, which is no key of the table, an open request pushes the annotation
  and returns the text \<^verbatim>\<open>undefined\<close>, a close request pops it and returns the same
  text, and the character that carries the annotation is rendered with that text
  before and after it instead of as it would be without the annotation.
\<close>

theorem inherited_type_is_not_silent:
  "annotationRenderers (ann_type (example_heap 6)) = None
   \<and> renderAnnotation example_heap Open 6 [] = Inr ([(TagOpen 6, ''undefined'')], [6])
   \<and> renderAnnotation example_heap Close 6 [6] = Inr ([(TagClose 6, ''undefined'')], [])
   \<and> getHtml id example_heap [Formatted ''x'' [6]] None = Inr ''undefinedxundefined''
   \<and> getHtml id example_heap [Formatted ''x'' []] None = Inr ''x''"
proof -
  have "annotationRenderers (ann_type (example_heap 6)) = None"
    using example_registered(2) by (simp add: registered_def)
  moreover have "renderAnnotation example_heap Open 6 [] = Inr ([(TagOpen 6, ''undefined'')], [6])"
    by (simp add: renderAnnotation_open example_admitted example_text)
  moreover have "renderAnnotation example_heap Close 6 [6] = Inr ([(TagClose 6, ''undefined'')], [])"
    by (simp add: renderAnnotation_close_top example_admitted example_text)
  moreover have "getHtml id example_heap [Formatted ''x'' [6]] None = Inr ''undefinedxundefined''"
    by (simp add: getHtml_def getHtml_state_def transition_def renderAnnotation_open
          renderAnnotation_close_top example_admitted example_text example_chars text_of_def)
  moreover have "getHtml id example_heap [Formatted ''x'' []] None = Inr ''x''"
    by (simp add: getHtml_def getHtml_state_def transition_def example_chars text_of_def)
  ultimately show ?thesis by simp
qed

text \<open>
  C10. The stack is meant to hold only annotations whose type is a key of
  \<^verbatim>\<open>annotationRenderers\<close>, so that the unguarded reads
  \<^verbatim>\<open>renderers[stack[i].type]\<close> find a render rule. The guard in front of the push is
  \<^verbatim>\<open>type in renderers\<close> and lets an annotation of type \<^verbatim>\<open>toString\<close> through: it is
  pushed, and when bold below it is closed the unguarded reads find an inherited
  function with neither a \<^verbatim>\<open>close\<close> nor an \<^verbatim>\<open>open\<close> property, so that the text
  \<^verbatim>\<open>undefined\<close> is appended for both.
\<close>

theorem inherited_type_reaches_stack:
  "\<not> registered example_heap 6
   \<and> loop example_heap (Plain []) [] [] [Formatted ''x'' [2, 6]] =
        Inr ([(TagOpen 2, ''<b>''), (TagOpen 6, ''undefined''), (Chr, ''x'')], [2, 6])
   \<and> renderAnnotation example_heap Close 2 [2, 6] =
        Inr ([(TagCloseAbove 6, ''undefined''), (TagClose 2, ''</b>''),
              (TagReopen 6, ''undefined'')], [6])
   \<and> getHtml id example_heap [Formatted ''x'' [2, 6], Formatted ''y'' [6]] None =
        Inr ''<b>undefinedxundefined</b>undefinedyundefined''"
proof -
  have n: "(2::nat) \<noteq> 6" by simp
  have l: "loop example_heap (Plain []) [] [] [Formatted ''x'' [2, 6]] =
        Inr ([(TagOpen 2, ''<b>''), (TagOpen 6, ''undefined''), (Chr, ''x'')], [2, 6])"
    by (simp add: transition_def renderAnnotation_open example_admitted example_text
          example_chars)
  have c: "renderAnnotation example_heap Close 2 [2, 6] =
        Inr ([(TagCloseAbove 6, ''undefined''), (TagClose 2, ''</b>''),
              (TagReopen 6, ''undefined'')], [6])"
    using close_under_one[OF n example_admitted(1,5)] by (simp add: example_text)
  have "getHtml_state example_heap [Formatted ''x'' [2, 6], Formatted ''y'' [6]] =
        Inr ([(TagOpen 2, ''<b>''), (TagOpen 6, ''undefined''), (Chr, ''x''),
              (TagCloseAbove 6, ''undefined''), (TagClose 2, ''</b>''),
              (TagReopen 6, ''undefined''), (Chr, ''y''), (TagClose 6, ''undefined'')], [])"
    by (simp add: getHtml_state_def transition_def renderAnnotation_open c
          renderAnnotation_close_top example_admitted example_text example_chars)
  then have "getHtml id example_heap [Formatted ''x'' [2, 6], Formatted ''y'' [6]] None =
        Inr ''<b>undefinedxundefined</b>undefinedyundefined''"
    by (simp add: getHtml_def text_of_def)
  with example_registered(2) l c show ?thesis by simp
qed

end
